theory Spec2Isabelle
  imports Complex_Main "HOL-Library.Sublist" "HOL-Library.AList"
begin

section \<open>Python strings\<close>

text \<open>
  A Python \<open>str\<close> is modelled as a \<open>string\<close>, one \<open>char\<close> per code point, over the
  ASCII range: \<open>str.lower\<close> maps \<open>A\<close>..\<open>Z\<close> to \<open>a\<close>..\<open>z\<close> and leaves every other
  character alone, and the whitespace of \<open>str.strip()\<close> and of the regular expression
  class \<open>\s\<close> is the ASCII whitespace of \<open>str.isspace\<close>: tab, line feed, vertical tab,
  form feed, carriage return, the four separators \<open>0x1C\<close>..\<open>0x1F\<close> and the space.
\<close>

definition dquote :: char where
  "dquote = CHR 0x22"

definition squote :: char where
  "squote = CHR 0x27"

definition lower_char :: "char \<Rightarrow> char" where
  "lower_char c =
     (case map_of (zip ''ABCDEFGHIJKLMNOPQRSTUVWXYZ'' ''abcdefghijklmnopqrstuvwxyz'') c of
        Some d \<Rightarrow> d
      | None \<Rightarrow> c)"

definition lower :: "string \<Rightarrow> string" where
  "lower s = map lower_char s"

definition is_space :: "char \<Rightarrow> bool" where
  "is_space c =
     (c \<in> set [CHR 0x09, CHR 0x0A, CHR 0x0B, CHR 0x0C, CHR 0x0D,
                CHR 0x1C, CHR 0x1D, CHR 0x1E, CHR 0x1F, CHR 0x20])"

definition is_lower_letter :: "char \<Rightarrow> bool" where
  "is_lower_letter c = (c \<in> set ''abcdefghijklmnopqrstuvwxyz'')"

definition is_digit :: "char \<Rightarrow> bool" where
  "is_digit c = (c \<in> set ''0123456789'')"

text \<open>\<open>s.strip(chars)\<close>: drop the characters of \<open>chars\<close> from both ends.\<close>

definition strip_chars :: "(char \<Rightarrow> bool) \<Rightarrow> string \<Rightarrow> string" where
  "strip_chars P s = rev (dropWhile P (rev (dropWhile P s)))"

text \<open>The right half of it, for the proofs.\<close>

definition rstrip :: "(char \<Rightarrow> bool) \<Rightarrow> string \<Rightarrow> string" where
  "rstrip P s = rev (dropWhile P (rev s))"

text \<open>\<open>s.strip()\<close>: drop whitespace from both ends.\<close>

definition strip :: "string \<Rightarrow> string" where
  "strip s = strip_chars is_space s"

text \<open>\<open>s.startswith(p)\<close> is \<^const>\<open>prefix\<close>; \<open>s.replace(p, "", 1)\<close> deletes the first
  occurrence of \<open>p\<close> in \<open>s\<close>, wherever it is.\<close>

fun remove_first :: "string \<Rightarrow> string \<Rightarrow> string" where
  "remove_first p [] = []"
| "remove_first p (c # cs) =
     (if prefix p (c # cs) then drop (length p) (c # cs) else c # remove_first p cs)"

text \<open>\<open>w in s\<close> for strings: \<open>w\<close> occurs in \<open>s\<close> as a contiguous block.\<close>

fun contains :: "string \<Rightarrow> string \<Rightarrow> bool" where
  "contains [] w = (w = [])"
| "contains (c # cs) w = (prefix w (c # cs) \<or> contains cs w)"

section \<open>Query extractor\<close>

text \<open>
  \<open>re.findall(r'"([^"]+)"', text)\<close>: scanning from the left, a match begins at a double
  quote that is followed by one or more characters other than the double quote and then
  by a double quote; the group is what lies between the two; the scan goes on after the
  closing quote. Where no match begins, the scan moves one character on.
\<close>

function findall_quoted :: "string \<Rightarrow> string list" where
  "findall_quoted [] = []"
| "findall_quoted (c # cs) =
     (let body = takeWhile (\<lambda>x. x \<noteq> dquote) cs;
          rest = dropWhile (\<lambda>x. x \<noteq> dquote) cs
      in if c = dquote \<and> body \<noteq> [] \<and> rest \<noteq> []
         then body # findall_quoted (tl rest)
         else findall_quoted cs)"
  by pat_completeness auto
termination
proof (relation "measure length")
  show "wf (measure length)" by simp
next
  fix c :: char and cs body rest :: string
  assume "rest = dropWhile (\<lambda>x. x \<noteq> dquote) cs"
  then have "length rest \<le> length cs"
    by (simp add: length_dropWhile_le)
  then have "length (tl rest) \<le> length cs"
    by simp
  then show "(tl rest, c # cs) \<in> measure length" by simp
next
  fix c :: char and cs :: string
  show "(cs, c # cs) \<in> measure length" by simp
qed

definition phrases :: "string list" where
  "phrases =
     [''tell me about'', ''what is'', ''info for'', ''details for'',
      ''plot of'', ''duration of'', ''story of'', ''how long is'']"

text \<open>The loop over \<open>phrases\<close>: every phrase is tried once, in list order, against the
  current value of \<open>cleaned\<close>; the loop has no \<open>break\<close>.\<close>

fun strip_phrases :: "string list \<Rightarrow> string \<Rightarrow> string" where
  "strip_phrases [] cleaned = cleaned"
| "strip_phrases (p # ps) cleaned =
     strip_phrases ps (if prefix p cleaned then remove_first p cleaned else cleaned)"

text \<open>The characters of the final \<open>strip(" ?!., sync'\"")\<close>.\<close>

definition final_chars :: "char \<Rightarrow> bool" where
  "final_chars c = (c \<in> set ('' ?!., sync'' @ [squote, dquote]))"

definition extract_title_from_text :: "string \<Rightarrow> string" where
  "extract_title_from_text text0 =
     (let text = strip (lower text0);
          quoted = findall_quoted text
      in case quoted of
           q # _ \<Rightarrow> strip q
         | [] \<Rightarrow> strip_chars final_chars (strip_phrases phrases text))"

section \<open>Normalizer\<close>

text \<open>\<open>re.sub(r"[^a-z0-9\s]", " ", t)\<close>: every character that is not a lowercase letter, a
  digit or whitespace becomes one space.\<close>

definition sub_other :: "string \<Rightarrow> string" where
  "sub_other t =
     map (\<lambda>c. if is_lower_letter c \<or> is_digit c \<or> is_space c then c else CHR '' '') t"

text \<open>\<open>re.sub(r"\s+", " ", t)\<close>: every maximal run of whitespace becomes one space.\<close>

function collapse_ws :: "string \<Rightarrow> string" where
  "collapse_ws [] = []"
| "collapse_ws (c # cs) =
     (if is_space c then CHR '' '' # collapse_ws (dropWhile is_space cs)
      else c # collapse_ws cs)"
  by pat_completeness auto
termination
proof (relation "measure length")
  show "wf (measure length)" by simp
next
  fix c :: char and cs :: string
  have "length (dropWhile is_space cs) \<le> length cs"
    by (simp add: length_dropWhile_le)
  then show "(dropWhile is_space cs, c # cs) \<in> measure length" by simp
next
  fix c :: char and cs :: string
  show "(cs, c # cs) \<in> measure length" by simp
qed

text \<open>The argument is \<open>None\<close> for Python's \<open>None\<close>; \<open>not title\<close> holds of \<open>None\<close> and of
  the empty string.\<close>

definition normalize_title :: "string option \<Rightarrow> string" where
  "normalize_title title =
     (case title of
        None \<Rightarrow> []
      | Some s \<Rightarrow>
          if s = [] then []
          else strip (collapse_ws (sub_other (strip (lower s)))))"

section \<open>Field accessor\<close>

text \<open>A row of \<open>csv.DictReader\<close> is a dictionary in insertion order, from header names to
  cell values: an association list, with \<open>None\<close> for the value \<open>None\<close> that the reader stores
  for a missing cell.\<close>

type_synonym row = "(string \<times> string option) list"

fun get_row_value_case_insensitive :: "row \<Rightarrow> string \<Rightarrow> string" where
  "get_row_value_case_insensitive [] key = []"
| "get_row_value_case_insensitive ((k, v) # kvs) key =
     (if lower k = lower key then (case v of None \<Rightarrow> [] | Some s \<Rightarrow> s)
      else get_row_value_case_insensitive kvs key)"

section \<open>Dataset indexer\<close>

text \<open>
  The index holds the dictionary \<open>rows_by_norm\<close> (an association list;
  \<open>rows_by_norm[n] = row\<close> is \<^const>\<open>AList.update\<close>, which overwrites in place) and the set
  \<open>titles_set\<close>, a set of strings. A set has no order of its own: the order in which the
  scan of \<open>run\<close> meets its elements is a parameter of the scan.
\<close>

record index =
  rows_by_norm :: "(string \<times> row) list"
  titles_set :: "string set"

fun index_rows :: "row list \<Rightarrow> index \<Rightarrow> index" where
  "index_rows [] idx = idx"
| "index_rows (r # rs) idx =
     (let name = strip (get_row_value_case_insensitive r ''title'')
      in if name = [] then index_rows rs idx
         else let n = normalize_title (Some name)
              in index_rows rs
                   \<lparr>rows_by_norm = AList.update n r (rows_by_norm idx),
                    titles_set = insert n (titles_set idx)\<rparr>)"

text \<open>
  The process-wide \<open>_DATASET_CACHE\<close> is part of an explicit state, next to the log of the
  dataset files that were opened. The file system is a function from the resolved path to
  the rows that \<open>csv.DictReader\<close> yields, \<open>None\<close> where opening or reading the file raises;
  the exception leaves \<open>build_dataset_index\<close> before the cache is written. The other
  exception of this development is the \<open>AttributeError\<close> of calling \<open>lower\<close> on \<open>None\<close>.
\<close>

datatype error = DatasetUnavailable | AttributeError

record world =
  dataset_cache :: "(string \<times> index) list"
  opened :: "string list"

definition build_dataset_index ::
  "(string \<Rightarrow> row list option) \<Rightarrow> string \<Rightarrow> world \<Rightarrow> (error + index) \<times> world" where
  "build_dataset_index fs cache_key w =
     (case map_of (dataset_cache w) cache_key of
        Some idx \<Rightarrow> (Inr idx, w)
      | None \<Rightarrow>
          (let w1 = w\<lparr>opened := opened w @ [cache_key]\<rparr>
           in case fs cache_key of
                None \<Rightarrow> (Inl DatasetUnavailable, w1)
              | Some rows \<Rightarrow>
                  (let idx = index_rows rows \<lparr>rows_by_norm = [], titles_set = {}\<rparr>
                   in (Inr idx,
                       w1\<lparr>dataset_cache := AList.update cache_key idx (dataset_cache w1)\<rparr>))))"

section \<open>Similarity\<close>

text \<open>
  Modelled from the spec: \<open>difflib.SequenceMatcher\<close>, which \<open>similarity\<close> calls, belongs to
  Python's standard library and is not under \<open>src/\<close>. The model follows the description of
  section 4.4: the longest common contiguous block (of the longest ones, the one that
  starts earliest in \<open>a\<close> and, of those, earliest in \<open>b\<close>), the same again on what lies to
  its left and to its right, the matched lengths summed, and the score
  \<open>2 * matches / (len(a) + len(b))\<close>, which is \<open>1\<close> for two empty strings. The junk
  heuristic, which applies to a second string of 200 characters or more, is left out. The
  score is an exact rational; the float of the source is that rational rounded, and the
  rounding keeps every comparison of this development for strings shorter than \<open>2 ^ 50\<close>.
\<close>

fun common_prefix_len :: "'a list \<Rightarrow> 'a list \<Rightarrow> nat" where
  "common_prefix_len (x # xs) (y # ys) =
     (if x = y then Suc (common_prefix_len xs ys) else 0)"
| "common_prefix_len _ _ = 0"

definition better ::
  "'a list \<Rightarrow> 'a list \<Rightarrow> nat \<times> nat \<times> nat \<Rightarrow> nat \<times> nat \<Rightarrow> nat \<times> nat \<times> nat" where
  "better a b best ij =
     (case best of (besti, bestj, bestsize) \<Rightarrow>
        case ij of (i, j) \<Rightarrow>
          let k = common_prefix_len (drop i a) (drop j b)
          in if k > bestsize then (i, j, k) else best)"

definition find_longest_match :: "'a list \<Rightarrow> 'a list \<Rightarrow> nat \<times> nat \<times> nat" where
  "find_longest_match a b =
     foldl (better a b) (0, 0, 0) (List.product [0..<length a] [0..<length b])"

text \<open>A block \<open>(i, j, k)\<close> lies inside both strings and is common to them.\<close>

definition block_ok :: "'a list \<Rightarrow> 'a list \<Rightarrow> nat \<times> nat \<times> nat \<Rightarrow> bool" where
  "block_ok a b best =
     (case best of (i, j, k) \<Rightarrow>
        i + k \<le> length a \<and> j + k \<le> length b \<and> take k (drop i a) = take k (drop j b))"

lemma common_prefix_len_le:
  "common_prefix_len xs ys \<le> length xs" "common_prefix_len xs ys \<le> length ys"
  by (induction xs ys rule: common_prefix_len.induct) auto

lemma common_prefix_len_take:
  "take (common_prefix_len xs ys) xs = take (common_prefix_len xs ys) ys"
  by (induction xs ys rule: common_prefix_len.induct) auto

lemma better_block_ok: "block_ok a b best \<Longrightarrow> block_ok a b (better a b best ij)"
proof -
  assume inv: "block_ok a b best"
  obtain bi bj bk where best: "best = (bi, bj, bk)" by (cases best) auto
  obtain i j where ij: "ij = (i, j)" by (cases ij) auto
  let ?k = "common_prefix_len (drop i a) (drop j b)"
  have "?k \<le> length a - i" "?k \<le> length b - j"
    using common_prefix_len_le [of "drop i a" "drop j b"] by simp_all
  moreover have "take ?k (drop i a) = take ?k (drop j b)"
    by (rule common_prefix_len_take)
  ultimately show ?thesis
    using inv by (auto simp: better_def best ij Let_def block_ok_def)
qed

lemma foldl_better_block_ok:
  "block_ok a b best \<Longrightarrow> block_ok a b (foldl (better a b) best ps)"
  by (induction ps arbitrary: best) (simp_all add: better_block_ok)

lemma find_longest_match_block_ok: "block_ok a b (find_longest_match a b)"
  unfolding find_longest_match_def
  by (rule foldl_better_block_ok) (simp add: block_ok_def)

lemma find_longest_match_bounds:
  assumes "find_longest_match a b = (i, j, k)"
  shows "i + k \<le> length a" "j + k \<le> length b" "take k (drop i a) = take k (drop j b)"
  using find_longest_match_block_ok [of a b] assms by (simp_all add: block_ok_def)

function matches :: "'a list \<Rightarrow> 'a list \<Rightarrow> nat" where
  "matches a b =
     (case find_longest_match a b of (i, j, k) \<Rightarrow>
        if k = 0 then 0
        else matches (take i a) (take j b) + k + matches (drop (i + k) a) (drop (j + k) b))"
  by pat_completeness auto
termination
proof (relation "measure (\<lambda>(a, b). length a)")
  show "wf (measure (\<lambda>(a, b). length a))" by simp
next
  fix a b :: "'a list" and i y j k
  assume "(i, y) = find_longest_match a b" "(j, k) = y" "k \<noteq> 0"
  then have "i + k \<le> length a" "0 < k"
    using find_longest_match_bounds(1) [of a b i j k] by simp_all
  then show "((take i a, take j b), (a, b)) \<in> measure (\<lambda>(a, b). length a)"
    by simp
next
  fix a b :: "'a list" and i y j k
  assume "(i, y) = find_longest_match a b" "(j, k) = y" "k \<noteq> 0"
  then have "i + k \<le> length a" "0 < k"
    using find_longest_match_bounds(1) [of a b i j k] by simp_all
  then show "((drop (i + k) a, drop (j + k) b), (a, b)) \<in> measure (\<lambda>(a, b). length a)"
    by simp
qed

declare matches.simps [simp del]

definition ratio :: "'a list \<Rightarrow> 'a list \<Rightarrow> rat" where
  "ratio a b =
     (let length_sum = length a + length b
      in if length_sum \<noteq> 0 then 2 * rat_of_nat (matches a b) / rat_of_nat length_sum
         else 1)"

definition similarity :: "string \<Rightarrow> string \<Rightarrow> rat" where
  "similarity a b = ratio a b"

section \<open>Resolver\<close>

text \<open>The fuzzy scan: \<open>best_match, best_score\<close> start as \<open>None, 0.0\<close> and change only on a
  strictly greater score.\<close>

fun fuzzy_scan :: "string \<Rightarrow> string list \<Rightarrow> string option \<times> rat \<Rightarrow> string option \<times> rat" where
  "fuzzy_scan target_norm [] best = best"
| "fuzzy_scan target_norm (db_title_norm # ts) (best_match, best_score) =
     (let score = similarity target_norm db_title_norm
      in if score > best_score then fuzzy_scan target_norm ts (Some db_title_norm, score)
         else fuzzy_scan target_norm ts (best_match, best_score))"

text \<open>Python's truth value of \<open>row\<close>: \<open>None\<close> and the empty dictionary are false.\<close>

definition truthy :: "row option \<Rightarrow> bool" where
  "truthy row = (case row of None \<Rightarrow> False | Some kvs \<Rightarrow> kvs \<noteq> [])"

text \<open>\<open>d.get(key)\<close>, where \<open>key\<close> may be \<open>None\<close>, which is no key of \<open>d\<close>.\<close>

definition dict_get :: "(string \<times> row) list \<Rightarrow> string option \<Rightarrow> row option" where
  "dict_get d key = (case key of None \<Rightarrow> None | Some k \<Rightarrow> map_of d k)"

text \<open>The exact lookup and the fuzzy fallback of \<open>ActionMovieDetailsFromDataset.run\<close>: the
  value of \<open>row\<close> when the search is over. The loop \<open>for db_title_norm in titles_set\<close> meets
  the elements of the set in the order of its hash table, which Python leaves open and
  which changes from one process to the next: \<open>hash_order\<close> gives, for a set, the list of
  its elements in that order.\<close>

definition lookup_row :: "(string set \<Rightarrow> string list) \<Rightarrow> index \<Rightarrow> string \<Rightarrow> row option" where
  "lookup_row hash_order idx target_norm =
     (let row = dict_get (rows_by_norm idx) (Some target_norm)
      in if \<not> truthy row
         then (case fuzzy_scan target_norm (hash_order (titles_set idx)) (None, 0) of
                 (best_match, best_score) \<Rightarrow>
                   if best_score > 8 / 10 then dict_get (rows_by_norm idx) best_match
                   else row)
         else row)"

text \<open>The tracker gives the slot \<open>movie_title\<close>, a string or \<open>None\<close>, and the latest
  message, a dictionary whose entry \<open>text\<close> is missing (\<open>None\<close>), holds \<open>None\<close>
  (\<open>Some None\<close>) or holds a string; the dispatcher collects the messages uttered; the action
  returns events.\<close>

record tracker =
  movie_title :: "string option"
  latest_text :: "string option option"

datatype event = SlotSet string "string option"

definition any_word :: "string \<Rightarrow> string list \<Rightarrow> bool" where
  "any_word user_text ws = list_ex (contains user_text) ws"

definition describe_row :: "row \<Rightarrow> string \<Rightarrow> string" where
  "describe_row row user_text =
     (let name = get_row_value_case_insensitive row ''title'';
          duration = get_row_value_case_insensitive row ''duration'';
          plot = get_row_value_case_insensitive row ''description'';
          year = get_row_value_case_insensitive row ''release_year''
      in if any_word user_text [''long'', ''duration'', ''time'', ''length'']
         then ''The duration of '' @ [squote] @ name @ [squote] @ '' is '' @ duration @ ''.''
         else if any_word user_text [''plot'', ''story'', ''about'', ''summary'']
         then ''The plot of '' @ [squote] @ name @ [squote] @ '': '' @ plot
         else name @ '' ('' @ year @ '')'' @ [CHR 0x0A] @ ''- Duration: '' @ duration
              @ [CHR 0x0A] @ ''- Summary: '' @ take 120 plot @ ''...'')"

definition dataset_path :: "string \<Rightarrow> string" where
  "dataset_path project_root = project_root @ ''/data/netflix_titles.csv''"

text \<open>\<open>tracker.latest_message.get("text", "").lower()\<close>: the default \<open>""\<close> stands in for a
  missing entry only; on an entry that holds \<open>None\<close> the call of \<open>lower\<close> raises.\<close>

definition user_text_of :: "tracker \<Rightarrow> error + string" where
  "user_text_of tr =
     (case latest_text tr of
        None \<Rightarrow> Inr (lower [])
      | Some None \<Rightarrow> Inl AttributeError
      | Some (Some t) \<Rightarrow> Inr (lower t))"

text \<open>\<open>movie_title_slot if movie_title_slot else extract_title_from_text(user_text)\<close>.\<close>

definition raw_input_of :: "string option \<Rightarrow> string \<Rightarrow> string" where
  "raw_input_of movie_title_slot user_text =
     (case movie_title_slot of
        None \<Rightarrow> extract_title_from_text user_text
      | Some s \<Rightarrow> if s \<noteq> [] then s else extract_title_from_text user_text)"

definition not_found_message :: "string \<Rightarrow> string" where
  "not_found_message raw_input =
     ''I couldn'' @ [squote] @ ''t find '' @ [squote] @ raw_input @ [squote]
     @ '' in the dataset.''"

text \<open>\<open>run\<close> yields the messages uttered and the events returned, or the exception that
  leaves it, and the state after it.\<close>

definition run ::
  "(string \<Rightarrow> row list option) \<Rightarrow> (string set \<Rightarrow> string list) \<Rightarrow> string \<Rightarrow> tracker \<Rightarrow> world
     \<Rightarrow> (error + string list \<times> event list) \<times> world" where
  "run fs hash_order project_root tr w =
     (let movie_title_slot = movie_title tr
      in case user_text_of tr of
           Inl e \<Rightarrow> (Inl e, w)
         | Inr user_text \<Rightarrow>
             (let raw_input = raw_input_of movie_title_slot user_text;
                  target_norm = normalize_title (Some raw_input)
              in if target_norm = []
                 then (Inr ([''Which movie are you interested in?''], []), w)
                 else
                   (case build_dataset_index fs (dataset_path project_root) w of
                      (Inl e, w') \<Rightarrow> (Inl e, w')
                    | (Inr idx, w') \<Rightarrow>
                        (let row = lookup_row hash_order idx target_norm;
                             message =
                               (case row of
                                  None \<Rightarrow> not_found_message raw_input
                                | Some r \<Rightarrow>
                                    if truthy row then describe_row r user_text
                                    else not_found_message raw_input)
                         in (Inr ([message], [SlotSet ''movie_title'' None]), w')))))"

section \<open>Readings of the specification\<close>

text \<open>Calls of \<open>build_dataset_index\<close> one after the other, each with the file system of its
  moment and its own path, whatever each one returns.\<close>

fun after_calls :: "world \<Rightarrow> ((string \<Rightarrow> row list option) \<times> string) list \<Rightarrow> world" where
  "after_calls w [] = w"
| "after_calls w ((fs, cache_key) # calls) =
     after_calls (snd (build_dataset_index fs cache_key w)) calls"

text \<open>
  The normalizer in the words of section 4.1, written without the functions of the code.
  Lower-case every character; replace every character that is not a lowercase letter, a
  digit or whitespace by one space; then collapsing the runs of whitespace to one space
  and trimming both ends leaves the words of the string, that is its maximal runs of
  characters other than whitespace, with one space between two neighbours.
\<close>

definition alnum_chars :: string where
  "alnum_chars = ''abcdefghijklmnopqrstuvwxyz0123456789''"

definition spec_replace :: "char \<Rightarrow> char" where
  "spec_replace c = (if c \<in> set alnum_chars \<or> is_space c then c else CHR '' '')"

fun split_ws :: "string \<Rightarrow> string \<Rightarrow> string list" where
  "split_ws w [] = (if w = [] then [] else [w])"
| "split_ws w (c # cs) =
     (if is_space c then (if w = [] then split_ws [] cs else w # split_ws [] cs)
      else split_ws (w @ [c]) cs)"

definition spec_words :: "string \<Rightarrow> string list" where
  "spec_words s = split_ws [] s"

fun spec_join :: "string list \<Rightarrow> string" where
  "spec_join [] = []"
| "spec_join [w] = w"
| "spec_join (w # v # ws) = w @ CHR '' '' # spec_join (v # ws)"

definition spec_normalize :: "string \<Rightarrow> string" where
  "spec_normalize s = spec_join (spec_words (map spec_replace (map lower_char s)))"

text \<open>A word: not empty and without a space. No two neighbouring characters of a string
  are both the space.\<close>

definition word_ok :: "string \<Rightarrow> bool" where
  "word_ok w = (w \<noteq> [] \<and> CHR '' '' \<notin> set w)"

fun no_double_space :: "string \<Rightarrow> bool" where
  "no_double_space (a # b # cs) =
     (\<not> (a = CHR '' '' \<and> b = CHR '' '') \<and> no_double_space (b # cs))"
| "no_double_space _ = True"


text \<open>The first double-quoted substring in the plain reading of section 4.2: what lies
  between the first double quote and the next one, possibly nothing.\<close>

definition spec_first_quoted :: "string \<Rightarrow> string option" where
  "spec_first_quoted t =
     (let r = dropWhile (\<lambda>x. x \<noteq> dquote) t
      in if r = [] then None
         else if dquote \<in> set (tl r) then Some (takeWhile (\<lambda>x. x \<noteq> dquote) (tl r))
         else None)"

text \<open>The events that \<open>run\<close> returns, when it returns.\<close>

definition returned_events ::
  "(error + string list \<times> event list) \<times> world \<Rightarrow> event list option" where
  "returned_events r = (case fst r of Inl e \<Rightarrow> None | Inr (ms, evs) \<Rightarrow> Some evs)"

section \<open>A small dataset\<close>

definition demo_rows :: "row list" where
  "demo_rows =
     [[(''show_id'', Some ''s1''), (''Title'', Some ''Inception''),
       (''duration'', Some ''148 min''),
       (''description'', Some ''A thief who steals secrets.''),
       (''release_year'', Some ''2010'')],
      [(''show_id'', Some ''s2''), (''Title'', Some ''  ''), (''duration'', None)],
      [(''show_id'', Some ''s3''), (''Title'', Some ''Up!''), (''duration'', Some ''96 min''),
       (''description'', Some ''A balloon trip.''), (''release_year'', Some ''2009'')]]"

definition demo_path :: string where
  "demo_path = dataset_path ''/srv/bot''"

definition demo_fs :: "string \<Rightarrow> row list option" where
  "demo_fs p = (if p = demo_path then Some demo_rows else None)"

definition no_fs :: "string \<Rightarrow> row list option" where
  "no_fs p = None"

definition empty_world :: world where
  "empty_world = \<lparr>dataset_cache = [], opened = []\<rparr>"

definition empty_index :: index where
  "empty_index = \<lparr>rows_by_norm = [], titles_set = {}\<rparr>"

definition demo_index :: index where
  "demo_index = index_rows demo_rows empty_index"

definition demo_world :: world where
  "demo_world = \<lparr>dataset_cache = [(demo_path, demo_index)], opened = [demo_path]\<rparr>"

text \<open>Two records whose titles are equally close to the hint \<open>abcde\<close>, and the two orders
  in which a set of two titles can be met.\<close>

definition tie_rows :: "row list" where
  "tie_rows =
     [[(''show_id'', Some ''s1''), (''title'', Some ''abcdef'')],
      [(''show_id'', Some ''s2''), (''title'', Some ''abcdeg'')]]"

definition tie_fs :: "string \<Rightarrow> row list option" where
  "tie_fs p = Some tie_rows"

definition demo_order :: "string set \<Rightarrow> string list" where
  "demo_order S = filter (\<lambda>n. n \<in> S) [''abcdef'', ''abcdeg'', ''inception'', ''up'']"

definition demo_order_rev :: "string set \<Rightarrow> string list" where
  "demo_order_rev S = filter (\<lambda>n. n \<in> S) [''up'', ''inception'', ''abcdeg'', ''abcdef'']"

definition tie_index :: index where
  "tie_index = index_rows tie_rows empty_index"

definition tie_world :: world where
  "tie_world = \<lparr>dataset_cache = [(demo_path, tie_index)], opened = [demo_path]\<rparr>"

text \<open>The best score of a hint over the indexed titles, \<open>0\<close> when there is none; the
  invariant of a built index: the set of titles is the set of keys, and no indexed row is
  empty; and the same for every index in the cache.\<close>

definition best_score :: "index \<Rightarrow> string \<Rightarrow> rat" where
  "best_score idx target_norm = Max (insert 0 (similarity target_norm ` titles_set idx))"

definition index_ok :: "index \<Rightarrow> bool" where
  "index_ok idx =
     ((\<forall>n. n \<in> titles_set idx \<longleftrightarrow> map_of (rows_by_norm idx) n \<noteq> None)
      \<and> (\<forall>n r. map_of (rows_by_norm idx) n = Some r \<longrightarrow> r \<noteq> []))"

definition cache_ok :: "world \<Rightarrow> bool" where
  "cache_ok w = (\<forall>key idx. map_of (dataset_cache w) key = Some idx \<longrightarrow> index_ok idx)"

section \<open>The final trim of the extractor\<close>

text \<open>
  C4. The final step of \<open>extract_title_from_text\<close> is meant to trim whitespace, punctuation
  and quote characters only. The characters it strips include the letters \<open>s\<close>, \<open>y\<close>, \<open>n\<close>
  and \<open>c\<close>: the utterance \<open>casino\<close>, which holds no quote and no lead-in phrase and begins
  and ends with a letter, loses its first letter.
\<close>

theorem final_strip_eats_letters:
  "extract_title_from_text ''casino'' = ''asino''"
  by code_simp

section \<open>Field accessor: first match, case-insensitive\<close>

lemma get_row_no_match:
  "\<forall>kv\<in>set row. lower (fst kv) \<noteq> lower key \<Longrightarrow> get_row_value_case_insensitive row key = []"
  by (induction row) auto

lemma get_row_first_match:
  "\<forall>kv\<in>set pre. lower (fst kv) \<noteq> lower key \<Longrightarrow> lower k = lower key \<Longrightarrow>
   get_row_value_case_insensitive (pre @ (k, v) # post) key = (case v of None \<Rightarrow> [] | Some s \<Rightarrow> s)"
  by (induction pre) auto

text \<open>
  C9. \<open>get_row_value_case_insensitive\<close> compares the lower-cased field name with the
  lower-cased keys of the record, in the record's order. When no key matches, the result
  is the empty string; otherwise it is the value stored under the first matching key, and
  the empty string when that value is the missing marker \<open>None\<close>. The function is total:
  there is no input on which it fails.
\<close>

theorem get_row_value_first_match_or_empty:
  "((\<forall>kv\<in>set row. lower (fst kv) \<noteq> lower key) \<longrightarrow>
      get_row_value_case_insensitive row key = [])
   \<and> ((\<forall>kv\<in>set pre. lower (fst kv) \<noteq> lower key) \<and> lower k = lower key \<longrightarrow>
      get_row_value_case_insensitive (pre @ (k, None) # post) key = []
      \<and> get_row_value_case_insensitive (pre @ (k, Some s) # post) key = s)"
  by (simp add: get_row_no_match get_row_first_match)

theorem get_row_value_first_match_or_empty_witness:
  "get_row_value_case_insensitive [(''show_id'', Some ''s1''), (''duration'', None)] ''rating'' = []
   \<and> get_row_value_case_insensitive
        [(''show_id'', Some ''s1''), (''duration'', None), (''Duration'', Some ''90 min'')]
        ''DURATION'' = []
   \<and> get_row_value_case_insensitive
        [(''show_id'', Some ''s1''), (''Title'', Some ''Up''), (''TITLE'', Some ''Down'')]
        ''title'' = ''Up''"
proof -
  let ?r = "[(''show_id'', Some ''s1''), (''duration'', None)]"
  have a: "\<forall>kv\<in>set ?r. lower (fst kv) \<noteq> lower ''rating''"
    by code_simp
  have b: "(\<forall>kv\<in>set [(''show_id'', Some ''s1'')]. lower (fst kv) \<noteq> lower ''DURATION'')
      \<and> lower ''duration'' = lower ''DURATION''"
    by code_simp
  have c: "(\<forall>kv\<in>set [(''show_id'', Some ''s1'')]. lower (fst kv) \<noteq> lower ''title'')
      \<and> lower ''Title'' = lower ''title''"
    by code_simp
  note t = get_row_value_first_match_or_empty
  from a t [of ?r "''rating''"] have 1: "get_row_value_case_insensitive ?r ''rating'' = []"
    by blast
  from b t [of "[]" "''DURATION''" "[(''show_id'', Some ''s1'')]" "''duration''" "[(''Duration'', Some ''90 min'')]"]
  have 2: "get_row_value_case_insensitive
        ([(''show_id'', Some ''s1'')] @ (''duration'', None) # [(''Duration'', Some ''90 min'')])
        ''DURATION'' = []"
    by blast
  from c t [of "[]" "''title''" "[(''show_id'', Some ''s1'')]" "''Title''" "[(''TITLE'', Some ''Down'')]" "''Up''"]
  have 3: "get_row_value_case_insensitive
        ([(''show_id'', Some ''s1'')] @ (''Title'', Some ''Up'') # [(''TITLE'', Some ''Down'')])
        ''title'' = ''Up''"
    by blast
  from 1 2 3 show ?thesis by simp
qed


section \<open>Index cache\<close>

lemma build_hit:
  "map_of (dataset_cache w) key = Some idx \<Longrightarrow> build_dataset_index fs key w = (Inr idx, w)"
  by (simp add: build_dataset_index_def)

lemma build_success_cached:
  "build_dataset_index fs key w = (Inr idx, w1) \<Longrightarrow> map_of (dataset_cache w1) key = Some idx"
  by (auto simp: build_dataset_index_def Let_def update_conv' split: option.splits)

lemma build_keeps_entry:
  assumes "map_of (dataset_cache w) key = Some idx"
  shows "map_of (dataset_cache (snd (build_dataset_index fs' key' w))) key = Some idx"
  using assms
  by (auto simp: build_dataset_index_def Let_def update_conv' split: option.splits)

lemma build_keeps_opened:
  assumes "map_of (dataset_cache w) key = Some idx"
  shows "count_list (opened (snd (build_dataset_index fs' key' w))) key = count_list (opened w) key"
  using assms
  by (auto simp: build_dataset_index_def Let_def split: option.splits)

lemma after_calls_keeps:
  assumes "map_of (dataset_cache w) key = Some idx"
  shows "map_of (dataset_cache (after_calls w calls)) key = Some idx
    \<and> count_list (opened (after_calls w calls)) key = count_list (opened w) key"
  using assms
proof (induction calls arbitrary: w)
  case Nil
  then show ?case by simp
next
  case (Cons c calls)
  obtain fs' key' where c: "c = (fs', key')" by (cases c) auto
  let ?w = "snd (build_dataset_index fs' key' w)"
  have "map_of (dataset_cache ?w) key = Some idx"
    using Cons.prems by (rule build_keeps_entry)
  from Cons.IH [OF this] build_keeps_opened [OF Cons.prems, of fs' key']
  show ?case by (simp add: c)
qed

text \<open>
  C8. Once a call of \<open>build_dataset_index\<close> for an identifier has succeeded, every later
  call for the same identifier, after any number of calls for any identifiers and whatever
  the file system holds by then, returns the same index and leaves the state as it is: the
  cache is unchanged and the dataset is not opened again, so the number of times it was
  opened for that identifier no longer grows.
\<close>

theorem build_dataset_index_cached_for_good:
  assumes "build_dataset_index fs key w = (Inr idx, w1)"
  shows "build_dataset_index fs' key (after_calls w1 calls) = (Inr idx, after_calls w1 calls)
    \<and> count_list (opened (after_calls w1 calls)) key = count_list (opened w1) key"
proof -
  have "map_of (dataset_cache w1) key = Some idx"
    using assms by (rule build_success_cached)
  then have "map_of (dataset_cache (after_calls w1 calls)) key = Some idx
    \<and> count_list (opened (after_calls w1 calls)) key = count_list (opened w1) key"
    by (rule after_calls_keeps)
  then show ?thesis by (simp add: build_hit)
qed

theorem build_dataset_index_cached_for_good_witness:
  "build_dataset_index demo_fs demo_path empty_world = (Inr demo_index, demo_world)
   \<and> build_dataset_index no_fs demo_path
        (after_calls demo_world [(no_fs, ''/tmp/other.csv''), (no_fs, demo_path)])
      = (Inr demo_index, after_calls demo_world [(no_fs, ''/tmp/other.csv''), (no_fs, demo_path)])
   \<and> count_list (opened (after_calls demo_world [(no_fs, ''/tmp/other.csv''), (no_fs, demo_path)]))
        demo_path = 1"
proof -
  have h: "build_dataset_index demo_fs demo_path empty_world = (Inr demo_index, demo_world)"
    by (simp add: build_dataset_index_def empty_world_def demo_fs_def demo_index_def
        demo_world_def empty_index_def Let_def)
  have c: "count_list (opened demo_world) demo_path = 1"
    by (simp add: demo_world_def)
  from build_dataset_index_cached_for_good [OF h, of no_fs "[(no_fs, ''/tmp/other.csv''), (no_fs, demo_path)]"] h c
  show ?thesis by simp
qed

section \<open>Similarity: the ratio of the matching blocks\<close>

lemma matches_le: "matches a b \<le> length a \<and> matches a b \<le> length b"
proof (induction a b rule: matches.induct)
  case (1 a b)
  obtain i j k where f: "find_longest_match a b = (i, j, k)"
    by (cases "find_longest_match a b") auto
  show ?case
  proof (cases "k = 0")
    case True
    then show ?thesis using f by (simp add: matches.simps [of a b])
  next
    case False
    note b = find_longest_match_bounds [OF f]
    have l: "matches (take i a) (take j b) \<le> i \<and> matches (take i a) (take j b) \<le> j"
      using "1.IH"(1) [OF f [symmetric] refl False] b by simp
    have r: "matches (drop (i + k) a) (drop (j + k) b) \<le> length a - (i + k)
           \<and> matches (drop (i + k) a) (drop (j + k) b) \<le> length b - (j + k)"
      using "1.IH"(2) [OF f [symmetric] refl False] by simp
    have m: "matches a b
        = matches (take i a) (take j b) + k + matches (drop (i + k) a) (drop (j + k) b)"
      using f False by (simp add: matches.simps [of a b])
    show ?thesis using m l r b by linarith
  qed
qed

lemma matches_full: "matches a b = length a \<Longrightarrow> length a = length b \<Longrightarrow> a = b"
proof (induction a b rule: matches.induct)
  case (1 a b)
  obtain i j k where f: "find_longest_match a b = (i, j, k)"
    by (cases "find_longest_match a b") auto
  show ?case
  proof (cases "k = 0")
    case True
    then have "matches a b = 0" using f by (simp add: matches.simps [of a b])
    then show ?thesis using "1.prems" by simp
  next
    case False
    note b = find_longest_match_bounds [OF f]
    let ?l = "matches (take i a) (take j b)" and ?r = "matches (drop (i + k) a) (drop (j + k) b)"
    have m: "matches a b = ?l + k + ?r"
      using f False by (simp add: matches.simps [of a b])
    have l: "?l \<le> i" "?l \<le> j"
      using matches_le [of "take i a" "take j b"] b by simp_all
    have r: "?r \<le> length a - (i + k)" "?r \<le> length b - (j + k)"
      using matches_le [of "drop (i + k) a" "drop (j + k) b"] by simp_all
    have eqs: "?l = i" "?l = j" "?r = length a - (i + k)"
      using m l r b "1.prems" by linarith+
    then have ij: "i = j" by simp
    have "take i a = take j b"
      using "1.IH"(1) [OF f [symmetric] refl False] eqs b "1.prems" by simp
    moreover have "drop (i + k) a = drop (j + k) b"
      using "1.IH"(2) [OF f [symmetric] refl False] eqs b "1.prems" ij by simp
    moreover have "take k (drop i a) = take k (drop j b)" by (rule b(3))
    moreover have "xs = take i xs @ take k (drop i xs) @ drop (i + k) xs" for xs :: "'a list"
      by (metis add.commute append_take_drop_id drop_drop)
    ultimately show ?thesis
      using ij by metis
  qed
qed


lemma common_prefix_len_same: "common_prefix_len xs xs = length xs"
  by (induction xs) auto

lemma foldl_better_stable:
  assumes "\<And>i j. (i, j) \<in> set ps \<Longrightarrow> common_prefix_len (drop i a) (drop j b) \<le> bk"
  shows "foldl (better a b) (bi, bj, bk) ps = (bi, bj, bk)"
  using assms
proof (induction ps)
  case Nil
  then show ?case by simp
next
  case (Cons p ps)
  obtain i j where p: "p = (i, j)" by (cases p) auto
  have "common_prefix_len (drop i a) (drop j b) \<le> bk"
    using Cons.prems [of i j] p by simp
  then have "better a b (bi, bj, bk) p = (bi, bj, bk)"
    by (simp add: better_def p Let_def)
  then show ?case using Cons by simp
qed

lemma find_longest_match_same:
  assumes "a \<noteq> []"
  shows "find_longest_match a a = (0, 0, length a)"
proof -
  obtain x xs where a: "a = x # xs" using assms by (cases a) auto
  have "0 < length a" using a by simp
  then have up: "[0..<length a] = 0 # [1..<length a]"
    by (simp only: upt_conv_Cons One_nat_def)
  have "List.product (0 # ns) (0 # ns) = (0, 0) # (map (Pair 0) ns @ List.product ns (0 # ns))"
    for ns :: "nat list"
    by simp
  then obtain ps where prod: "List.product [0..<length a] [0..<length a] = (0, 0) # ps"
    using up by metis
  have first: "better a a (0, 0, 0) (0, 0) = (0, 0, length a)"
    using a by (simp add: better_def common_prefix_len_same)
  have rest: "foldl (better a a) (0, 0, length a) ps = (0, 0, length a)" for ps
  proof (rule foldl_better_stable)
    fix i j
    have "common_prefix_len (drop i a) (drop j a) \<le> length (drop i a)"
      by (rule common_prefix_len_le)
    then show "common_prefix_len (drop i a) (drop j a) \<le> length a" by simp
  qed
  show ?thesis
    unfolding find_longest_match_def prod by (simp add: first rest)
qed

lemma matches_Nil: "matches [] b = 0"
  by (simp add: matches.simps [of "[]" b] find_longest_match_def)

lemma matches_same: "matches a a = length a"
proof (cases "a = []")
  case True
  then show ?thesis by (simp add: matches_Nil)
next
  case False
  then show ?thesis
    by (simp add: matches.simps [of a a] find_longest_match_same matches_Nil)
qed

lemma ratio_bounds: "0 \<le> ratio a b \<and> ratio a b \<le> 1"
proof -
  have "2 * matches a b \<le> length a + length b"
    using matches_le [of a b] by linarith
  then have "2 * rat_of_nat (matches a b) \<le> rat_of_nat (length a + length b)"
    by (metis of_nat_le_iff of_nat_mult of_nat_numeral)
  then show ?thesis
    by (simp add: ratio_def Let_def divide_le_eq)
qed

lemma ratio_one_iff: "ratio a b = 1 \<longleftrightarrow> a = b"
proof
  assume r: "ratio a b = 1"
  show "a = b"
  proof (cases "length a + length b = 0")
    case True
    then show ?thesis by simp
  next
    case False
    then have "2 * rat_of_nat (matches a b) = rat_of_nat (length a + length b)"
      using r by (simp add: ratio_def Let_def)
    then have "2 * matches a b = length a + length b"
      by (metis of_nat_eq_iff of_nat_mult of_nat_numeral)
    then have "matches a b = length a" "length a = length b"
      using matches_le [of a b] by linarith+
    then show ?thesis by (rule matches_full)
  qed
next
  assume "a = b"
  then show "ratio a b = 1"
    by (simp add: ratio_def Let_def matches_same)
qed


lemma common_prefix_len_ge:
  "take k xs = take k ys \<Longrightarrow> k \<le> length xs \<Longrightarrow> k \<le> length ys \<Longrightarrow> k \<le> common_prefix_len xs ys"
proof (induction xs ys arbitrary: k rule: common_prefix_len.induct)
  case (1 x xs y ys)
  show ?case
  proof (cases k)
    case 0
    then show ?thesis by simp
  next
    case (Suc k')
    with "1.prems" have "x = y" "take k' xs = take k' ys" "k' \<le> length xs" "k' \<le> length ys"
      by simp_all
    with "1.IH" [of k'] Suc show ?thesis by simp
  qed
qed simp_all

lemma better_size_mono: "snd (snd best) \<le> snd (snd (better a b best ij))"
  by (cases best; cases ij) (simp add: better_def Let_def)

lemma better_size_ge:
  "common_prefix_len (drop i a) (drop j b) \<le> snd (snd (better a b best (i, j)))"
  by (cases best) (simp add: better_def Let_def)

lemma foldl_better_size_mono: "snd (snd best) \<le> snd (snd (foldl (better a b) best ps))"
proof (induction ps arbitrary: best)
  case Nil
  then show ?case by simp
next
  case (Cons p ps)
  have "snd (snd best) \<le> snd (snd (better a b best p))"
    by (rule better_size_mono)
  also have "\<dots> \<le> snd (snd (foldl (better a b) (better a b best p) ps))"
    by (rule Cons.IH)
  finally show ?case by simp
qed

lemma foldl_better_size_ge:
  "(i, j) \<in> set ps \<Longrightarrow>
   common_prefix_len (drop i a) (drop j b) \<le> snd (snd (foldl (better a b) best ps))"
proof (induction ps arbitrary: best)
  case Nil
  then show ?case by simp
next
  case (Cons p ps)
  show ?case
  proof (cases "p = (i, j)")
    case True
    have "common_prefix_len (drop i a) (drop j b) \<le> snd (snd (better a b best (i, j)))"
      by (rule better_size_ge)
    also have "\<dots> \<le> snd (snd (foldl (better a b) (better a b best (i, j)) ps))"
      by (rule foldl_better_size_mono)
    finally show ?thesis using True by simp
  next
    case False
    with Cons.prems have "(i, j) \<in> set ps" by simp
    from Cons.IH [OF this] show ?thesis by simp
  qed
qed

lemma find_longest_match_longest:
  assumes "block_ok a b (i, j, k)"
  shows "k \<le> snd (snd (find_longest_match a b))"
proof (cases "k = 0")
  case True
  then show ?thesis by simp
next
  case False
  from assms have b: "i + k \<le> length a" "j + k \<le> length b"
    "take k (drop i a) = take k (drop j b)"
    by (simp_all add: block_ok_def)
  with False have "(i, j) \<in> set (List.product [0..<length a] [0..<length b])"
    by simp
  then have "common_prefix_len (drop i a) (drop j b) \<le> snd (snd (find_longest_match a b))"
    unfolding find_longest_match_def by (rule foldl_better_size_ge)
  moreover have "k \<le> common_prefix_len (drop i a) (drop j b)"
    using b by (intro common_prefix_len_ge) simp_all
  ultimately show ?thesis by simp
qed

text \<open>
  C2. \<open>similarity\<close> is the ratio of the matching blocks: twice the matched length over
  the sum of the two lengths, where the matched length adds the longest common contiguous
  block to the matched lengths of what lies to its left and to its right. The block that
  \<open>find_longest_match\<close> returns is common to both strings, and no common block is longer.
  The score lies between 0 and 1, and it is 1 exactly when the two strings are equal.
\<close>

theorem similarity_is_matching_blocks_ratio:
  "(a \<noteq> [] \<or> b \<noteq> [] \<longrightarrow>
      similarity a b = 2 * rat_of_nat (matches a b) / rat_of_nat (length a + length b))
   \<and> block_ok a b (find_longest_match a b)
   \<and> (block_ok a b (i, j, k) \<longrightarrow> k \<le> snd (snd (find_longest_match a b)))
   \<and> 0 \<le> similarity a b \<and> similarity a b \<le> 1
   \<and> (similarity a b = 1 \<longleftrightarrow> a = b)"
proof -
  have "a \<noteq> [] \<or> b \<noteq> [] \<longrightarrow>
      similarity a b = 2 * rat_of_nat (matches a b) / rat_of_nat (length a + length b)"
    by (auto simp: similarity_def ratio_def Let_def)
  moreover have "block_ok a b (i, j, k) \<longrightarrow> k \<le> snd (snd (find_longest_match a b))"
    using find_longest_match_longest by blast
  ultimately show ?thesis
    using find_longest_match_block_ok [of a b] ratio_bounds [of a b] ratio_one_iff [of a b]
    by (simp add: similarity_def)
qed

theorem similarity_is_matching_blocks_ratio_witness:
  "similarity ''incepton'' ''inception'' = 16 / 17
   \<and> find_longest_match ''incepton'' ''inception'' = (0, 0, 6)
   \<and> similarity ''incepton'' ''inception'' \<noteq> 1
   \<and> similarity ''up'' ''up'' = 1"
proof -
  note t = similarity_is_matching_blocks_ratio
  have m: "matches ''incepton'' ''inception'' = 8"
    by code_simp
  have f: "find_longest_match ''incepton'' ''inception'' = (0, 0, 6)"
    by code_simp
  have h: "''incepton'' \<noteq> [] \<or> ''inception'' \<noteq> []"
    by simp
  from h t [of "''incepton''" "''inception''" 0 0 6]
  have "similarity ''incepton'' ''inception''
      = 2 * rat_of_nat (matches ''incepton'' ''inception'')
          / rat_of_nat (length ''incepton'' + length ''inception'')"
    by blast
  then have 1: "similarity ''incepton'' ''inception'' = 16 / 17"
    by (simp add: m)
  have "''incepton'' \<noteq> ''inception''" by simp
  with t [of "''incepton''" "''inception''" 0 0 6]
  have 2: "similarity ''incepton'' ''inception'' \<noteq> 1"
    by blast
  from t [of "''up''" "''up''" 0 0 2] have 3: "similarity ''up'' ''up'' = 1"
    by blast
  from 1 f 2 3 show ?thesis by simp
qed

section \<open>The action: the ways out before the index, and the events\<close>

lemma run_raises:
  "user_text_of tr = Inl e \<Longrightarrow> run fs hash_order project_root tr w = (Inl e, w)"
  by (simp add: run_def Let_def)

lemma run_empty_query:
  "user_text_of tr = Inr user_text \<Longrightarrow>
   normalize_title (Some (raw_input_of (movie_title tr) user_text)) = [] \<Longrightarrow>
   run fs hash_order project_root tr w
     = (Inr ([''Which movie are you interested in?''], []), w)"
  by (simp add: run_def Let_def)

lemma run_reaches_index:
  assumes "user_text_of tr = Inr user_text"
    and "normalize_title (Some (raw_input_of (movie_title tr) user_text)) \<noteq> []"
    and "build_dataset_index fs (dataset_path project_root) w = (Inr idx, w')"
  shows "\<exists>message.
    run fs hash_order project_root tr w
      = (Inr ([message], [SlotSet ''movie_title'' None]), w')"
  using assms by (simp add: run_def Let_def)

text \<open>
  C6. When \<open>run\<close> gets a title hint (the slot, or else what the extractor finds in the
  utterance) and the hint normalizes to the empty string, it asks for a title and returns
  at once: whatever the file system, also one where the dataset cannot be opened, the
  state after the call is the state before it, so the cache and the log of opened files
  are untouched. The same holds of the only other way out before the index, the exception
  of a latest message whose text is \<open>None\<close>.
\<close>

theorem run_empty_query_touches_nothing:
  "(user_text_of tr = Inr user_text
      \<and> normalize_title (Some (raw_input_of (movie_title tr) user_text)) = [] \<longrightarrow>
     run fs hash_order project_root tr w
       = (Inr ([''Which movie are you interested in?''], []), w)
     \<and> dataset_cache (snd (run fs hash_order project_root tr w)) = dataset_cache w
     \<and> opened (snd (run fs hash_order project_root tr w)) = opened w)
   \<and> (user_text_of tr = Inl e \<longrightarrow> run fs hash_order project_root tr w = (Inl e, w))"
  by (simp add: run_empty_query run_raises)

theorem run_empty_query_touches_nothing_witness:
  "run no_fs demo_order ''/srv/bot''
       \<lparr>movie_title = None, latest_text = Some (Some ''Tell me about ?'')\<rparr> empty_world
     = (Inr ([''Which movie are you interested in?''], []), empty_world)
   \<and> run no_fs demo_order ''/srv/bot''
       \<lparr>movie_title = Some ''!!!'', latest_text = None\<rparr> empty_world
     = (Inr ([''Which movie are you interested in?''], []), empty_world)
   \<and> run no_fs demo_order ''/srv/bot''
       \<lparr>movie_title = Some ''!!!'', latest_text = Some None\<rparr> empty_world
     = (Inl AttributeError, empty_world)"
proof -
  let ?a = "\<lparr>movie_title = None, latest_text = Some (Some ''Tell me about ?'')\<rparr>"
  let ?b = "\<lparr>movie_title = Some ''!!!'', latest_text = None\<rparr>"
  let ?c = "\<lparr>movie_title = Some ''!!!'', latest_text = Some None\<rparr>"
  note t = run_empty_query_touches_nothing
  have a: "user_text_of ?a = Inr ''tell me about ?''
      \<and> normalize_title (Some (raw_input_of (movie_title ?a) ''tell me about ?'')) = []"
    by code_simp
  have b: "user_text_of ?b = Inr []
      \<and> normalize_title (Some (raw_input_of (movie_title ?b) [])) = []"
    by code_simp
  have c: "user_text_of ?c = Inl AttributeError"
    by code_simp
  from a t [of ?a "''tell me about ?''" no_fs demo_order "''/srv/bot''" empty_world]
  have 1: "run no_fs demo_order ''/srv/bot'' ?a empty_world
      = (Inr ([''Which movie are you interested in?''], []), empty_world)"
    by blast
  from b t [of ?b "[]" no_fs demo_order "''/srv/bot''" empty_world]
  have 2: "run no_fs demo_order ''/srv/bot'' ?b empty_world
      = (Inr ([''Which movie are you interested in?''], []), empty_world)"
    by blast
  from c t [of ?c _ no_fs demo_order "''/srv/bot''" empty_world AttributeError]
  have 3: "run no_fs demo_order ''/srv/bot'' ?c empty_world = (Inl AttributeError, empty_world)"
    by blast
  from 1 2 3 show ?thesis by simp
qed

text \<open>
  C10. When \<open>run\<close> gets a title hint: on the empty-query path it returns no event, so the
  slot \<open>movie_title\<close> keeps its value; on every call that gets the index, whether a record
  is found or not, it returns the single event that sets the slot \<open>movie_title\<close> to
  \<open>None\<close>. A call that an exception leaves returns no event list at all.
\<close>

theorem run_returned_events:
  "(user_text_of tr = Inr user_text
      \<and> normalize_title (Some (raw_input_of (movie_title tr) user_text)) = [] \<longrightarrow>
      returned_events (run fs hash_order project_root tr w) = Some [])
   \<and> (user_text_of tr = Inr user_text
        \<and> normalize_title (Some (raw_input_of (movie_title tr) user_text)) \<noteq> []
        \<and> fst (build_dataset_index fs (dataset_path project_root) w) = Inr idx \<longrightarrow>
      returned_events (run fs hash_order project_root tr w)
        = Some [SlotSet ''movie_title'' None])
   \<and> (user_text_of tr = Inl e \<longrightarrow>
      returned_events (run fs hash_order project_root tr w) = None)"
proof (intro conjI impI)
  assume "user_text_of tr = Inr user_text
    \<and> normalize_title (Some (raw_input_of (movie_title tr) user_text)) = []"
  then show "returned_events (run fs hash_order project_root tr w) = Some []"
    by (simp add: run_empty_query returned_events_def)
next
  assume a: "user_text_of tr = Inr user_text
    \<and> normalize_title (Some (raw_input_of (movie_title tr) user_text)) \<noteq> []
    \<and> fst (build_dataset_index fs (dataset_path project_root) w) = Inr idx"
  then obtain w' where "build_dataset_index fs (dataset_path project_root) w = (Inr idx, w')"
    by (cases "build_dataset_index fs (dataset_path project_root) w") auto
  with a obtain message where
    "run fs hash_order project_root tr w
      = (Inr ([message], [SlotSet ''movie_title'' None]), w')"
    using run_reaches_index by blast
  then show "returned_events (run fs hash_order project_root tr w)
      = Some [SlotSet ''movie_title'' None]"
    by (simp add: returned_events_def)
next
  assume "user_text_of tr = Inl e"
  then show "returned_events (run fs hash_order project_root tr w) = None"
    by (simp add: run_raises returned_events_def)
qed

theorem run_returned_events_witness:
  "returned_events
     (run demo_fs demo_order ''/srv/bot''
        \<lparr>movie_title = None, latest_text = Some (Some ''Tell me about ?'')\<rparr> empty_world)
     = Some []
   \<and> returned_events
     (run demo_fs demo_order ''/srv/bot''
        \<lparr>movie_title = Some ''Incepton'', latest_text = Some (Some ''how long is it'')\<rparr>
        empty_world)
     = Some [SlotSet ''movie_title'' None]
   \<and> returned_events
     (run demo_fs demo_order ''/srv/bot''
        \<lparr>movie_title = None, latest_text = Some (Some ''info for Toy Story'')\<rparr> empty_world)
     = Some [SlotSet ''movie_title'' None]
   \<and> returned_events
     (run demo_fs demo_order ''/srv/bot''
        \<lparr>movie_title = Some ''Incepton'', latest_text = Some None\<rparr> empty_world)
     = None"
proof -
  let ?e = "\<lparr>movie_title = None, latest_text = Some (Some ''Tell me about ?'')\<rparr>"
  let ?f = "\<lparr>movie_title = Some ''Incepton'', latest_text = Some (Some ''how long is it'')\<rparr>"
  let ?n = "\<lparr>movie_title = None, latest_text = Some (Some ''info for Toy Story'')\<rparr>"
  let ?x = "\<lparr>movie_title = Some ''Incepton'', latest_text = Some None\<rparr>"
  have e: "user_text_of ?e = Inr ''tell me about ?''
      \<and> normalize_title (Some (raw_input_of (movie_title ?e) ''tell me about ?'')) = []"
    by code_simp
  have f: "user_text_of ?f = Inr ''how long is it''
      \<and> normalize_title (Some (raw_input_of (movie_title ?f) ''how long is it'')) \<noteq> []"
    by code_simp
  have n: "user_text_of ?n = Inr ''info for toy story''
      \<and> normalize_title (Some (raw_input_of (movie_title ?n) ''info for toy story'')) \<noteq> []"
    by code_simp
  have x: "user_text_of ?x = Inl AttributeError"
    by code_simp
  have b: "fst (build_dataset_index demo_fs (dataset_path ''/srv/bot'') empty_world)
      = Inr demo_index"
    by (simp add: build_dataset_index_def empty_world_def demo_fs_def demo_index_def
        demo_path_def empty_index_def Let_def)
  note t = run_returned_events
  from e t [of ?e "''tell me about ?''" demo_fs demo_order "''/srv/bot''" empty_world]
  have 1: "returned_events (run demo_fs demo_order ''/srv/bot'' ?e empty_world) = Some []"
    by blast
  from f b t [of ?f "''how long is it''" demo_fs demo_order "''/srv/bot''" empty_world demo_index]
  have 2: "returned_events (run demo_fs demo_order ''/srv/bot'' ?f empty_world)
      = Some [SlotSet ''movie_title'' None]"
    by blast
  from n b t [of ?n "''info for toy story''" demo_fs demo_order "''/srv/bot''" empty_world demo_index]
  have 3: "returned_events (run demo_fs demo_order ''/srv/bot'' ?n empty_world)
      = Some [SlotSet ''movie_title'' None]"
    by blast
  from x t [of ?x _ demo_fs demo_order "''/srv/bot''" empty_world _ AttributeError]
  have 4: "returned_events (run demo_fs demo_order ''/srv/bot'' ?x empty_world) = None"
    by blast
  from 1 2 3 4 show ?thesis by simp
qed

section \<open>Normalizer: the code against the specification\<close>

lemma strip_chars_rstrip: "strip_chars P s = rstrip P (dropWhile P s)"
  by (simp add: strip_chars_def rstrip_def)

lemma rstrip_Nil [simp]: "rstrip P [] = []"
  by (simp add: rstrip_def)

lemma rstrip_Cons:
  "rstrip P (c # cs) = (if P c \<and> rstrip P cs = [] then [] else c # rstrip P cs)"
  by (simp add: rstrip_def dropWhile_append)

lemma rstrip_eq_Nil: "rstrip P s = [] \<longleftrightarrow> (\<forall>c\<in>set s. P c)"
  by (simp add: rstrip_def dropWhile_eq_Nil_conv)

lemma rstrip_dropWhile: "rstrip P (dropWhile P s) = dropWhile P (rstrip P s)"
proof (induction s)
  case Nil
  then show ?case by simp
next
  case (Cons c cs)
  show ?case
  proof (cases "P c")
    case True
    then show ?thesis
      using Cons by (cases "rstrip P cs = []") (simp_all add: rstrip_Cons)
  next
    case False
    then show ?thesis by (simp add: rstrip_Cons)
  qed
qed

lemma collapse_ws_eq_Nil: "collapse_ws s = [] \<longleftrightarrow> s = []"
  by (cases s) auto

lemma collapse_ws_no_leading_space:
  "t = [] \<or> \<not> is_space (hd t) \<Longrightarrow> dropWhile is_space (collapse_ws t) = collapse_ws t"
  by (cases t) auto

lemma collapse_ws_dropWhile:
  "dropWhile is_space (collapse_ws s) = collapse_ws (dropWhile is_space s)"
proof (cases s)
  case Nil
  then show ?thesis by simp
next
  case (Cons c cs)
  have sp: "is_space CHR '' ''" by (simp add: is_space_def)
  let ?d = "dropWhile is_space cs"
  have "?d = [] \<or> \<not> is_space (hd ?d)"
    using hd_dropWhile [of is_space cs] by blast
  then have d: "dropWhile is_space (collapse_ws ?d) = collapse_ws ?d"
    by (rule collapse_ws_no_leading_space)
  show ?thesis
  proof (cases "is_space c")
    case True
    then show ?thesis using Cons sp d by simp
  next
    case False
    then show ?thesis using Cons by simp
  qed
qed

lemma collapse_ws_rstrip:
  "rstrip is_space (collapse_ws s) = collapse_ws (rstrip is_space s)"
proof (induction s rule: collapse_ws.induct)
  case 1
  then show ?case by simp
next
  case (2 c cs)
  have sp: "is_space CHR '' ''" by (simp add: is_space_def)
  show ?case
  proof (cases "is_space c")
    case True
    note c = True
    let ?d = "dropWhile is_space cs"
    have IH: "rstrip is_space (collapse_ws ?d) = collapse_ws (rstrip is_space ?d)"
      using "2.IH"(1) [OF True] .
    show ?thesis
    proof (cases "\<forall>x\<in>set cs. is_space x")
      case True
      then have "?d = []" by (simp add: dropWhile_eq_Nil_conv)
      then have "collapse_ws ?d = []" by (simp only: collapse_ws.simps)
      then have "collapse_ws (c # cs) = [CHR '' '']"
        using c by (simp only: collapse_ws.simps if_True)
      moreover have "rstrip is_space (c # cs) = []"
        using True c by (simp add: rstrip_eq_Nil)
      ultimately show ?thesis using sp by (simp add: rstrip_Cons)
    next
      case False
      then have ne: "rstrip is_space cs \<noteq> []" by (simp add: rstrip_eq_Nil)
      have dne: "?d \<noteq> []" using False by (simp add: dropWhile_eq_Nil_conv)
      then have "\<not> is_space (hd ?d)" by (simp add: hd_dropWhile)
      then have "\<not> (\<forall>x\<in>set ?d. is_space x)" using dne by (metis hd_in_set)
      then have "rstrip is_space ?d \<noteq> []" by (simp add: rstrip_eq_Nil)
      then have "rstrip is_space (collapse_ws ?d) \<noteq> []"
        using IH by (simp add: collapse_ws_eq_Nil)
      then have "rstrip is_space (collapse_ws (c # cs)) = CHR '' '' # rstrip is_space (collapse_ws ?d)"
        using c by (simp add: rstrip_Cons)
      also have "\<dots> = CHR '' '' # collapse_ws (dropWhile is_space (rstrip is_space cs))"
        using IH by (simp add: rstrip_dropWhile)
      also have "\<dots> = collapse_ws (c # rstrip is_space cs)"
        using c by simp
      also have "\<dots> = collapse_ws (rstrip is_space (c # cs))"
        using ne by (simp add: rstrip_Cons)
      finally show ?thesis .
    qed
  next
    case False
    then show ?thesis using "2.IH"(2) by (simp add: rstrip_Cons)
  qed
qed

lemma collapse_ws_strip: "strip (collapse_ws s) = collapse_ws (strip s)"
  by (simp add: strip_def strip_chars_rstrip collapse_ws_dropWhile collapse_ws_rstrip)

lemma dropWhile_map_dropWhile:
  assumes "\<And>c. P c \<Longrightarrow> P (f c)"
  shows "dropWhile P (map f (dropWhile P t)) = dropWhile P (map f t)"
  using assms by (induction t) auto

lemma rstrip_map_rstrip:
  assumes "\<And>c. P c \<Longrightarrow> P (f c)"
  shows "rstrip P (map f (rstrip P t)) = rstrip P (map f t)"
proof -
  have "dropWhile P (map f (dropWhile P (rev t))) = dropWhile P (map f (rev t))"
    by (rule dropWhile_map_dropWhile) (rule assms)
  then show ?thesis
    by (simp add: rstrip_def rev_map)
qed

lemma strip_chars_map_strip_chars:
  assumes "\<And>c. P c \<Longrightarrow> P (f c)"
  shows "strip_chars P (map f (strip_chars P t)) = strip_chars P (map f t)"
proof -
  have "strip_chars P (map f (strip_chars P t))
      = dropWhile P (rstrip P (map f (rstrip P (dropWhile P t))))"
    by (simp add: strip_chars_rstrip rstrip_dropWhile)
  also have "\<dots> = dropWhile P (rstrip P (map f (dropWhile P t)))"
    using rstrip_map_rstrip [of P f "dropWhile P t"] assms by simp
  also have "\<dots> = rstrip P (dropWhile P (map f (dropWhile P t)))"
    by (simp add: rstrip_dropWhile)
  also have "\<dots> = rstrip P (dropWhile P (map f t))"
    using dropWhile_map_dropWhile [of P f t] assms by simp
  finally show ?thesis by (simp add: strip_chars_rstrip)
qed

lemma strip_sub_other_strip: "strip (sub_other (strip t)) = strip (sub_other t)"
proof -
  let ?f = "\<lambda>c. if is_lower_letter c \<or> is_digit c \<or> is_space c then c else CHR '' ''"
  have "strip_chars is_space (map ?f (strip_chars is_space t)) = strip_chars is_space (map ?f t)"
    by (rule strip_chars_map_strip_chars) simp
  then show ?thesis
    by (simp add: strip_def sub_other_def)
qed


lemma split_ws_nonempty: "[] \<notin> set (split_ws w s)"
  by (induction s arbitrary: w) auto

lemma spec_join_Cons:
  "spec_join (w # ws) = (if ws = [] then w else w @ CHR '' '' # spec_join ws)"
  by (cases ws) simp_all

lemma spec_join_eq_Nil: "[] \<notin> set ws \<Longrightarrow> spec_join ws = [] \<longleftrightarrow> ws = []"
  by (cases ws) (auto simp: spec_join_Cons)

lemma spec_join_split_ws:
  "spec_join (split_ws w s)
     = (if w = [] then rstrip is_space (collapse_ws (dropWhile is_space s))
        else w @ rstrip is_space (collapse_ws s))"
proof (induction s arbitrary: w)
  case Nil
  then show ?case by simp
next
  case (Cons c cs)
  have sp: "is_space CHR '' ''" by (simp add: is_space_def)
  show ?case
  proof (cases "is_space c")
    case True
    let ?L = "split_ws [] cs"
    let ?R = "rstrip is_space (collapse_ws (dropWhile is_space cs))"
    have j: "spec_join ?L = ?R" using Cons.IH [of "[]"] by simp
    have e: "?R = [] \<longleftrightarrow> ?L = []"
      using spec_join_eq_Nil [OF split_ws_nonempty, of "[]" cs] j by simp
    show ?thesis
    proof (cases "w = []")
      case True
      then show ?thesis using \<open>is_space c\<close> j by simp
    next
      case False
      have "spec_join (split_ws w (c # cs)) = spec_join (w # ?L)"
        using False \<open>is_space c\<close> by simp
      also have "\<dots> = (if ?L = [] then w else w @ CHR '' '' # ?R)"
        using j by (simp add: spec_join_Cons)
      also have "\<dots> = w @ rstrip is_space (CHR '' '' # collapse_ws (dropWhile is_space cs))"
        using e sp by (simp add: rstrip_Cons)
      also have "\<dots> = w @ rstrip is_space (collapse_ws (c # cs))"
        using \<open>is_space c\<close> by simp
      finally show ?thesis using False by simp
    qed
  next
    case False
    have "spec_join (split_ws w (c # cs)) = (w @ [c]) @ rstrip is_space (collapse_ws cs)"
      using False Cons.IH [of "w @ [c]"] by simp
    then show ?thesis using False by (simp add: rstrip_Cons)
  qed
qed

lemma strip_collapse_ws_words: "strip (collapse_ws s) = spec_join (spec_words s)"
proof -
  have "strip (collapse_ws s) = rstrip is_space (dropWhile is_space (collapse_ws s))"
    by (simp add: strip_def strip_chars_rstrip)
  then show ?thesis
    by (simp add: spec_words_def spec_join_split_ws collapse_ws_dropWhile)
qed

lemma sub_other_lower: "sub_other (lower s) = map spec_replace (map lower_char s)"
proof -
  have "(is_lower_letter c \<or> is_digit c) = (c \<in> set alnum_chars)" for c
    by (auto simp: is_lower_letter_def is_digit_def alnum_chars_def)
  then have "(if is_lower_letter c \<or> is_digit c \<or> is_space c then c else CHR '' '')
      = spec_replace c" for c
    by (simp add: spec_replace_def disj_assoc [symmetric])
  then show ?thesis
    by (simp add: sub_other_def lower_def)
qed

lemma normalize_title_words: "normalize_title (Some s) = spec_normalize s"
proof (cases "s = []")
  case True
  then show ?thesis
    by (simp add: normalize_title_def spec_normalize_def spec_words_def)
next
  case False
  have "strip (collapse_ws (sub_other (strip (lower s))))
      = strip (collapse_ws (sub_other (lower s)))"
    by (simp add: collapse_ws_strip strip_sub_other_strip)
  then show ?thesis using False
    by (simp add: normalize_title_def spec_normalize_def strip_collapse_ws_words
        sub_other_lower)
qed

text \<open>What the words of a string are made of, and what joining them gives.\<close>

lemma split_ws_chars:
  "v \<in> set (split_ws w s) \<Longrightarrow> c \<in> set v \<Longrightarrow> c \<in> set w \<or> (c \<in> set s \<and> \<not> is_space c)"
proof (induction s arbitrary: w)
  case Nil
  then show ?case by (auto split: if_splits)
next
  case (Cons a s)
  show ?case
  proof (cases "is_space a")
    case True
    then have "v = w \<or> v \<in> set (split_ws [] s)"
      using Cons.prems(1) by (auto split: if_splits)
    then show ?thesis
      using Cons.IH [of "[]"] Cons.prems(2) by auto
  next
    case False
    then have "v \<in> set (split_ws (w @ [a]) s)"
      using Cons.prems(1) by simp
    from Cons.IH [OF this Cons.prems(2)] False show ?thesis by auto
  qed
qed

lemma spec_join_chars:
  "c \<in> set (spec_join ws) \<Longrightarrow> c = CHR '' '' \<or> (\<exists>w\<in>set ws. c \<in> set w)"
  by (induction ws rule: spec_join.induct) auto

lemma spec_join_ends:
  "\<forall>w\<in>set ws. word_ok w \<Longrightarrow> ws \<noteq> [] \<Longrightarrow>
   spec_join ws \<noteq> [] \<and> hd (spec_join ws) \<noteq> CHR '' '' \<and> last (spec_join ws) \<noteq> CHR '' ''"
proof (induction ws rule: spec_join.induct)
  case 1
  then show ?case by simp
next
  case (2 w)
  then have "w \<noteq> []" "CHR '' '' \<notin> set w" by (simp_all add: word_ok_def)
  then show ?case by (metis hd_in_set last_in_set spec_join.simps(2))
next
  case (3 w v ws)
  then have w: "w \<noteq> []" "CHR '' '' \<notin> set w" by (simp_all add: word_ok_def)
  have "spec_join (v # ws) \<noteq> [] \<and> last (spec_join (v # ws)) \<noteq> CHR '' ''"
    using 3 by simp
  moreover have "hd w \<noteq> CHR '' ''" using w by (metis hd_in_set)
  ultimately show ?case using w by simp
qed

lemma no_double_space_append:
  assumes "CHR '' '' \<notin> set w" and "w \<noteq> []" and "v \<noteq> []" and "hd v \<noteq> CHR '' ''"
    and "no_double_space v"
  shows "no_double_space (w @ CHR '' '' # v)"
  using assms
proof (induction w)
  case Nil
  then show ?case by simp
next
  case (Cons a w)
  show ?case
  proof (cases w)
    case Nil
    obtain b v' where "v = b # v'" using Cons.prems(3) by (cases v) auto
    then show ?thesis using Nil Cons.prems by simp
  next
    case (Cons a' w')
    then show ?thesis using Cons.IH Cons.prems by auto
  qed
qed

lemma no_double_space_word: "CHR '' '' \<notin> set w \<Longrightarrow> no_double_space w"
  by (induction w rule: no_double_space.induct) auto

lemma spec_join_no_double_space:
  "\<forall>w\<in>set ws. word_ok w \<Longrightarrow> no_double_space (spec_join ws)"
proof (induction ws rule: spec_join.induct)
  case 1
  then show ?case by simp
next
  case (2 w)
  then show ?case by (simp add: word_ok_def no_double_space_word)
next
  case (3 w v ws)
  then have w: "w \<noteq> []" "CHR '' '' \<notin> set w" by (simp_all add: word_ok_def)
  have e: "spec_join (v # ws) \<noteq> [] \<and> hd (spec_join (v # ws)) \<noteq> CHR '' ''"
    using spec_join_ends [of "v # ws"] 3 by simp
  have "no_double_space (spec_join (v # ws))" using 3 by simp
  then show ?case using w e by (simp add: no_double_space_append)
qed

lemma spec_words_word_ok: "\<forall>w\<in>set (spec_words s). word_ok w"
proof
  fix w assume w: "w \<in> set (spec_words s)"
  have sp: "is_space CHR '' ''" by (simp add: is_space_def)
  have "w \<noteq> []" using w split_ws_nonempty [of "[]" s] by (auto simp: spec_words_def)
  moreover have "CHR '' '' \<notin> set w"
    using split_ws_chars [of w "[]" s "CHR '' ''"] w sp by (auto simp: spec_words_def)
  ultimately show "word_ok w" by (simp add: word_ok_def)
qed

lemma spec_normalize_chars:
  assumes "c \<in> set (spec_normalize s)"
  shows "c \<in> set alnum_chars \<or> c = CHR '' ''"
proof -
  let ?x = "map spec_replace (map lower_char s)"
  from assms have "c = CHR '' '' \<or> (\<exists>w\<in>set (spec_words ?x). c \<in> set w)"
    unfolding spec_normalize_def by (rule spec_join_chars)
  then show ?thesis
  proof
    assume "c = CHR '' ''"
    then show ?thesis by simp
  next
    assume "\<exists>w\<in>set (spec_words ?x). c \<in> set w"
    then obtain w where "w \<in> set (split_ws [] ?x)" "c \<in> set w"
      by (auto simp: spec_words_def)
    then have c: "c \<in> set ?x" "\<not> is_space c"
      using split_ws_chars [of w "[]" ?x c] by auto
    then obtain d where d: "c = spec_replace d" by auto
    have sp: "is_space CHR '' ''" by (simp add: is_space_def)
    have "c = d \<and> (d \<in> set alnum_chars \<or> is_space d)"
      using d c(2) sp by (cases "d \<in> set alnum_chars \<or> is_space d") (simp_all add: spec_replace_def)
    then show ?thesis using c(2) by blast
  qed
qed

text \<open>
  C5. \<open>normalize_title\<close> is the normalizer of the specification. Its result is made of the
  words of the string once lower-cased and with every character that is not a lowercase
  letter, a digit or whitespace replaced by one space, joined by single spaces. So it
  holds lowercase letters, digits and the space only, it neither begins nor ends with a
  space, and it has no two spaces in a row. \<open>None\<close> and the empty string give the empty
  string.
\<close>

theorem normalize_title_refines_spec:
  "normalize_title (Some s) = spec_normalize s
   \<and> (\<forall>c\<in>set (normalize_title (Some s)). c \<in> set alnum_chars \<or> c = CHR '' '')
   \<and> (normalize_title (Some s) \<noteq> [] \<longrightarrow>
        hd (normalize_title (Some s)) \<noteq> CHR '' ''
        \<and> last (normalize_title (Some s)) \<noteq> CHR '' '')
   \<and> no_double_space (normalize_title (Some s))
   \<and> normalize_title None = []
   \<and> normalize_title (Some []) = []"
proof -
  let ?ws = "spec_words (map spec_replace (map lower_char s))"
  have ok: "\<forall>w\<in>set ?ws. word_ok w" by (rule spec_words_word_ok)
  have n: "normalize_title (Some s) = spec_join ?ws"
    by (simp add: normalize_title_words spec_normalize_def)
  have ends: "normalize_title (Some s) \<noteq> [] \<longrightarrow>
      hd (normalize_title (Some s)) \<noteq> CHR '' '' \<and> last (normalize_title (Some s)) \<noteq> CHR '' ''"
  proof
    assume "normalize_title (Some s) \<noteq> []"
    then have "?ws \<noteq> []" using n by auto
    with spec_join_ends [OF ok] n
    show "hd (normalize_title (Some s)) \<noteq> CHR '' '' \<and> last (normalize_title (Some s)) \<noteq> CHR '' ''"
      by simp
  qed
  have chars: "\<forall>c\<in>set (normalize_title (Some s)). c \<in> set alnum_chars \<or> c = CHR '' ''"
    using spec_normalize_chars [of _ s] by (simp only: normalize_title_words) blast
  have nds: "no_double_space (normalize_title (Some s))"
    using spec_join_no_double_space [OF ok] n by simp
  have e: "normalize_title None = []" "normalize_title (Some []) = []"
    by (simp_all add: normalize_title_def)
  show ?thesis
    using normalize_title_words [of s] ends chars nds e by blast
qed


theorem normalize_title_refines_spec_witness:
  "normalize_title (Some ''The Matrix!'') = ''the matrix''
   \<and> normalize_title (Some ''the   matrix'') = ''the matrix''
   \<and> normalize_title (Some (''  Se7en:'' @ [CHR 0x09] @ ''A-B  '')) = ''se7en a b''
   \<and> normalize_title (Some ''?!'') = []"
proof -
  note t = normalize_title_refines_spec
  have a: "spec_normalize ''The Matrix!'' = ''the matrix''"
    by code_simp
  have b: "spec_normalize ''the   matrix'' = ''the matrix''"
    by code_simp
  have c: "spec_normalize (''  Se7en:'' @ [CHR 0x09] @ ''A-B  '') = ''se7en a b''"
    by code_simp
  have d: "spec_normalize ''?!'' = []"
    by code_simp
  from t [of "''The Matrix!''"] a have 1: "normalize_title (Some ''The Matrix!'') = ''the matrix''"
    by (simp only:)
  from t [of "''the   matrix''"] b have 2: "normalize_title (Some ''the   matrix'') = ''the matrix''"
    by (simp only:)
  from t [of "''  Se7en:'' @ [CHR 0x09] @ ''A-B  ''"] c
  have 3: "normalize_title (Some (''  Se7en:'' @ [CHR 0x09] @ ''A-B  '')) = ''se7en a b''"
    by (simp only:)
  from t [of "''?!''"] d have 4: "normalize_title (Some ''?!'') = []"
    by (simp only:)
  from 1 2 3 4 show ?thesis by (simp only: simp_thms)
qed

section \<open>Resolver: exact lookup, then fuzzy fallback\<close>

lemma index_rows_ok: "index_ok idx \<Longrightarrow> index_ok (index_rows rows idx)"
proof (induction rows arbitrary: idx)
  case Nil
  then show ?case by simp
next
  case (Cons r rows)
  let ?name = "strip (get_row_value_case_insensitive r ''title'')"
  show ?case
  proof (cases "?name = []")
    case True
    then show ?thesis using Cons by (simp add: Let_def)
  next
    case False
    then have r: "r \<noteq> []"
      by (auto simp: strip_def strip_chars_def)
    let ?n = "normalize_title (Some ?name)"
    let ?idx = "\<lparr>rows_by_norm = AList.update ?n r (rows_by_norm idx),
                 titles_set = insert ?n (titles_set idx)\<rparr>"
    have "index_ok ?idx"
      using Cons.prems r by (auto simp: index_ok_def update_conv')
    from Cons.IH [OF this] False show ?thesis by (simp add: Let_def)
  qed
qed

lemma build_index_ok:
  assumes "cache_ok w" and "build_dataset_index fs key w = (Inr idx, w')"
  shows "index_ok idx"
proof (cases "map_of (dataset_cache w) key")
  case None
  have "index_ok (index_rows rows \<lparr>rows_by_norm = [], titles_set = {}\<rparr>)" for rows
    by (rule index_rows_ok) (simp add: index_ok_def)
  then show ?thesis using assms(2) None
    by (auto simp: build_dataset_index_def Let_def split: option.splits)
next
  case (Some idx')
  then show ?thesis using assms
    by (auto simp: build_dataset_index_def cache_ok_def)
qed

lemma build_cache_ok:
  assumes "cache_ok w"
  shows "cache_ok (snd (build_dataset_index fs key w))"
proof (cases "build_dataset_index fs key w")
  case (Pair res w')
  show ?thesis
  proof (cases res)
    case (Inl e)
    then show ?thesis using assms Pair
      by (auto simp: build_dataset_index_def cache_ok_def Let_def split: option.splits)
  next
    case (Inr idx)
    then have ok: "index_ok idx" using build_index_ok [OF assms] Pair by simp
    show ?thesis using assms Pair Inr ok
      by (auto simp: build_dataset_index_def cache_ok_def Let_def update_conv'
          split: option.splits if_splits)
  qed
qed

lemma fuzzy_scan_fold:
  "snd (fuzzy_scan t ts (bm, bs)) = fold max (map (similarity t) ts) bs"
proof (induction ts arbitrary: bm bs)
  case Nil
  then show ?case by simp
next
  case (Cons x ts)
  show ?case
  proof (cases "similarity t x > bs")
    case True
    then show ?thesis using Cons.IH [of "Some x" "similarity t x"]
      by (simp add: Let_def max_def)
  next
    case False
    then show ?thesis using Cons.IH [of bm bs]
      by (simp add: Let_def max_def)
  qed
qed

lemma fuzzy_scan_score:
  "snd (fuzzy_scan t ts (bm, bs)) = Max (insert bs (similarity t ` set ts))"
proof -
  have "Max (set (bs # map (similarity t) ts)) = fold max (map (similarity t) ts) bs"
    by (rule Max.set_eq_fold)
  then show ?thesis by (simp add: fuzzy_scan_fold)
qed

lemma fuzzy_scan_match:
  "fuzzy_scan t ts (bm, bs) = (bm, bs)
   \<or> (\<exists>pre m post. ts = pre @ m # post \<and> fuzzy_scan t ts (bm, bs) = (Some m, similarity t m)
        \<and> bs < similarity t m \<and> (\<forall>x\<in>set pre. similarity t x < similarity t m))"
proof (induction ts arbitrary: bm bs)
  case Nil
  then show ?case by simp
next
  case (Cons x ts)
  show ?case
  proof (cases "similarity t x > bs")
    case True
    from Cons.IH [of "Some x" "similarity t x"]
    show ?thesis
    proof
      assume "fuzzy_scan t ts (Some x, similarity t x) = (Some x, similarity t x)"
      then have "x # ts = [] @ x # ts
          \<and> fuzzy_scan t (x # ts) (bm, bs) = (Some x, similarity t x)
          \<and> bs < similarity t x \<and> (\<forall>y\<in>set []. similarity t y < similarity t x)"
        using True by (simp add: Let_def)
      then show ?thesis by blast
    next
      assume "\<exists>pre m post. ts = pre @ m # post
          \<and> fuzzy_scan t ts (Some x, similarity t x) = (Some m, similarity t m)
          \<and> similarity t x < similarity t m \<and> (\<forall>y\<in>set pre. similarity t y < similarity t m)"
      then obtain pre m post where h: "ts = pre @ m # post"
          "fuzzy_scan t ts (Some x, similarity t x) = (Some m, similarity t m)"
          "similarity t x < similarity t m" "\<forall>y\<in>set pre. similarity t y < similarity t m"
        by blast
      then have "x # ts = (x # pre) @ m # post
          \<and> fuzzy_scan t (x # ts) (bm, bs) = (Some m, similarity t m)
          \<and> bs < similarity t m \<and> (\<forall>y\<in>set (x # pre). similarity t y < similarity t m)"
        using True by (simp add: Let_def)
      then show ?thesis by blast
    qed
  next
    case False
    from Cons.IH [of bm bs]
    show ?thesis
    proof
      assume "fuzzy_scan t ts (bm, bs) = (bm, bs)"
      then show ?thesis using False by (simp add: Let_def)
    next
      assume "\<exists>pre m post. ts = pre @ m # post
          \<and> fuzzy_scan t ts (bm, bs) = (Some m, similarity t m)
          \<and> bs < similarity t m \<and> (\<forall>y\<in>set pre. similarity t y < similarity t m)"
      then obtain pre m post where h: "ts = pre @ m # post"
          "fuzzy_scan t ts (bm, bs) = (Some m, similarity t m)"
          "bs < similarity t m" "\<forall>y\<in>set pre. similarity t y < similarity t m"
        by blast
      then have "x # ts = (x # pre) @ m # post
          \<and> fuzzy_scan t (x # ts) (bm, bs) = (Some m, similarity t m)
          \<and> bs < similarity t m \<and> (\<forall>y\<in>set (x # pre). similarity t y < similarity t m)"
        using False by (simp add: Let_def)
      then show ?thesis by blast
    qed
  qed
qed

lemma lookup_row_exact:
  assumes "index_ok idx" and "map_of (rows_by_norm idx) t = Some r"
  shows "lookup_row hash_order idx t = Some r"
proof -
  have "r \<noteq> []" using assms by (simp add: index_ok_def)
  then show ?thesis using assms(2)
    by (simp add: lookup_row_def dict_get_def truthy_def)
qed

lemma lookup_row_miss_low:
  assumes "map_of (rows_by_norm idx) t = None"
    and "set (hash_order (titles_set idx)) = titles_set idx"
    and "best_score idx t \<le> 8 / 10"
  shows "lookup_row hash_order idx t = None"
proof -
  obtain bm bs where f: "fuzzy_scan t (hash_order (titles_set idx)) (None, 0) = (bm, bs)"
    by (cases "fuzzy_scan t (hash_order (titles_set idx)) (None, 0)") auto
  have "bs = best_score idx t"
    using fuzzy_scan_score [of t "hash_order (titles_set idx)" None 0] f assms(2)
    by (simp add: best_score_def)
  then show ?thesis using assms f
    by (simp add: lookup_row_def dict_get_def truthy_def)
qed

lemma lookup_row_miss_high:
  assumes ok: "index_ok idx" and miss: "map_of (rows_by_norm idx) t = None"
    and order: "set (hash_order (titles_set idx)) = titles_set idx"
    and high: "8 / 10 < best_score idx t"
  shows "\<exists>pre m post r. hash_order (titles_set idx) = pre @ m # post
    \<and> similarity t m = best_score idx t
    \<and> (\<forall>x\<in>set pre. similarity t x < similarity t m)
    \<and> map_of (rows_by_norm idx) m = Some r
    \<and> lookup_row hash_order idx t = Some r"
proof -
  let ?ts = "hash_order (titles_set idx)"
  obtain bm bs where f: "fuzzy_scan t ?ts (None, 0) = (bm, bs)"
    by (cases "fuzzy_scan t ?ts (None, 0)") auto
  have bs: "bs = best_score idx t"
    using fuzzy_scan_score [of t ?ts None 0] f order by (simp add: best_score_def)
  from fuzzy_scan_match [of t ?ts None 0]
  obtain pre m post where h: "?ts = pre @ m # post"
      "fuzzy_scan t ?ts (None, 0) = (Some m, similarity t m)"
      "\<forall>x\<in>set pre. similarity t x < similarity t m"
    using f bs high by auto
  then have "m \<in> set ?ts" by simp
  then have "m \<in> titles_set idx" using order by simp
  then obtain r where r: "map_of (rows_by_norm idx) m = Some r"
    using ok by (auto simp: index_ok_def)
  have "r \<noteq> []" using ok r by (simp add: index_ok_def)
  have m: "bm = Some m" "similarity t m = best_score idx t"
    using h(2) f bs by simp_all
  then have "lookup_row hash_order idx t = Some r"
    using miss f bs high r by (simp add: lookup_row_def dict_get_def truthy_def)
  then show ?thesis using h r m(2) by blast
qed

lemma lookup_row_no_rows:
  assumes "rows_by_norm idx = []"
  shows "lookup_row hash_order idx t = None"
  using assms
  by (auto simp: lookup_row_def dict_get_def truthy_def Let_def split: prod.splits option.splits)

lemma run_found:
  assumes "user_text_of tr = Inr user_text"
    and "normalize_title (Some (raw_input_of (movie_title tr) user_text)) \<noteq> []"
    and "build_dataset_index fs (dataset_path project_root) w = (Inr idx, w')"
    and "index_ok idx"
    and "lookup_row hash_order idx
           (normalize_title (Some (raw_input_of (movie_title tr) user_text))) = Some r"
    and "map_of (rows_by_norm idx) m = Some r"
  shows "run fs hash_order project_root tr w
    = (Inr ([describe_row r user_text], [SlotSet ''movie_title'' None]), w')"
proof -
  have "r \<noteq> []" using assms(4,6) by (simp add: index_ok_def)
  then show ?thesis using assms(1,2,3,5)
    by (simp add: run_def Let_def truthy_def)
qed

lemma run_not_found:
  assumes "user_text_of tr = Inr user_text"
    and "normalize_title (Some (raw_input_of (movie_title tr) user_text)) \<noteq> []"
    and "build_dataset_index fs (dataset_path project_root) w = (Inr idx, w')"
    and "lookup_row hash_order idx
           (normalize_title (Some (raw_input_of (movie_title tr) user_text))) = None"
  shows "run fs hash_order project_root tr w
    = (Inr ([not_found_message (raw_input_of (movie_title tr) user_text)],
            [SlotSet ''movie_title'' None]), w')"
  using assms by (simp add: run_def Let_def)

lemma after_calls_cache_ok: "cache_ok w \<Longrightarrow> cache_ok (after_calls w calls)"
proof (induction calls arbitrary: w)
  case Nil
  then show ?case by simp
next
  case (Cons c calls)
  obtain fs key where "c = (fs, key)" by (cases c) auto
  then show ?case using Cons.IH [OF build_cache_ok [OF Cons.prems, of fs key]] by simp
qed

lemma reachable_cache_ok: "cache_ok (after_calls empty_world calls)"
  by (rule after_calls_cache_ok) (simp add: cache_ok_def empty_world_def)

text \<open>
  C1. Whenever \<open>run\<close> gets a non-empty normalized hint and the index of the dataset, built
  or taken from a cache of built indexes (every cache that calls of \<open>build_dataset_index\<close>
  make out of the empty one is such a cache): if the hint is a key of \<open>rows_by_norm\<close>, the record found is the one stored
  under it and \<open>run\<close> describes it, whatever the order of the scan, so no scan decides it.
  If it is not a key, the titles are scanned in the order of the set: when the best score
  is strictly above 0.8, the record found is the one of the first title in that order
  that reaches the best score, and \<open>run\<close> describes it; when the best score is 0.8 or
  less, nothing is found and \<open>run\<close> says so. With no indexed row nothing is found.
\<close>

theorem run_exact_then_fuzzy:
  assumes "cache_ok w"
    and "user_text_of tr = Inr user_text"
    and "normalize_title (Some (raw_input_of (movie_title tr) user_text)) = t"
    and "t \<noteq> []"
    and "build_dataset_index fs (dataset_path project_root) w = (Inr idx, w')"
  shows
    "(map_of (rows_by_norm idx) t = Some r \<longrightarrow>
        lookup_row hash_order idx t = Some r
        \<and> run fs hash_order project_root tr w
            = (Inr ([describe_row r user_text], [SlotSet ''movie_title'' None]), w'))
     \<and> (map_of (rows_by_norm idx) t = None
          \<and> set (hash_order (titles_set idx)) = titles_set idx
          \<and> 8 / 10 < best_score idx t \<longrightarrow>
        (\<exists>pre m post r'. hash_order (titles_set idx) = pre @ m # post
           \<and> similarity t m = best_score idx t
           \<and> (\<forall>x\<in>set pre. similarity t x < similarity t m)
           \<and> map_of (rows_by_norm idx) m = Some r'
           \<and> lookup_row hash_order idx t = Some r'
           \<and> run fs hash_order project_root tr w
               = (Inr ([describe_row r' user_text], [SlotSet ''movie_title'' None]), w')))
     \<and> (map_of (rows_by_norm idx) t = None
          \<and> set (hash_order (titles_set idx)) = titles_set idx
          \<and> best_score idx t \<le> 8 / 10 \<longrightarrow>
        lookup_row hash_order idx t = None
        \<and> run fs hash_order project_root tr w
            = (Inr ([not_found_message (raw_input_of (movie_title tr) user_text)],
                    [SlotSet ''movie_title'' None]), w'))
     \<and> (rows_by_norm idx = [] \<longrightarrow>
        lookup_row hash_order idx t = None
        \<and> run fs hash_order project_root tr w
            = (Inr ([not_found_message (raw_input_of (movie_title tr) user_text)],
                    [SlotSet ''movie_title'' None]), w'))"
proof -
  have ok: "index_ok idx"
    using assms(1,5) by (rule build_index_ok)
  have ne: "normalize_title (Some (raw_input_of (movie_title tr) user_text)) \<noteq> []"
    using assms(3,4) by simp
  note found = run_found [OF assms(2) ne assms(5) ok, of hash_order, unfolded assms(3)]
  note not_found = run_not_found [OF assms(2) ne assms(5), of hash_order, unfolded assms(3)]
  have 1: "map_of (rows_by_norm idx) t = Some r \<longrightarrow>
      lookup_row hash_order idx t = Some r
      \<and> run fs hash_order project_root tr w
          = (Inr ([describe_row r user_text], [SlotSet ''movie_title'' None]), w')"
    using lookup_row_exact [OF ok, of t r hash_order] found [of r t] by blast
  have 2: "map_of (rows_by_norm idx) t = None
        \<and> set (hash_order (titles_set idx)) = titles_set idx
        \<and> 8 / 10 < best_score idx t \<longrightarrow>
      (\<exists>pre m post r'. hash_order (titles_set idx) = pre @ m # post
         \<and> similarity t m = best_score idx t
         \<and> (\<forall>x\<in>set pre. similarity t x < similarity t m)
         \<and> map_of (rows_by_norm idx) m = Some r'
         \<and> lookup_row hash_order idx t = Some r'
         \<and> run fs hash_order project_root tr w
             = (Inr ([describe_row r' user_text], [SlotSet ''movie_title'' None]), w'))"
  proof
    assume h: "map_of (rows_by_norm idx) t = None
        \<and> set (hash_order (titles_set idx)) = titles_set idx
        \<and> 8 / 10 < best_score idx t"
    then obtain pre m post r' where m: "hash_order (titles_set idx) = pre @ m # post"
        "similarity t m = best_score idx t" "\<forall>x\<in>set pre. similarity t x < similarity t m"
        "map_of (rows_by_norm idx) m = Some r'" "lookup_row hash_order idx t = Some r'"
      using lookup_row_miss_high [OF ok, of t hash_order] by blast
    from found [OF m(5) m(4)] m
    show "\<exists>pre m post r'. hash_order (titles_set idx) = pre @ m # post
         \<and> similarity t m = best_score idx t
         \<and> (\<forall>x\<in>set pre. similarity t x < similarity t m)
         \<and> map_of (rows_by_norm idx) m = Some r'
         \<and> lookup_row hash_order idx t = Some r'
         \<and> run fs hash_order project_root tr w
             = (Inr ([describe_row r' user_text], [SlotSet ''movie_title'' None]), w')"
      by blast
  qed
  have 3: "map_of (rows_by_norm idx) t = None
        \<and> set (hash_order (titles_set idx)) = titles_set idx
        \<and> best_score idx t \<le> 8 / 10 \<longrightarrow>
      lookup_row hash_order idx t = None
      \<and> run fs hash_order project_root tr w
          = (Inr ([not_found_message (raw_input_of (movie_title tr) user_text)],
                  [SlotSet ''movie_title'' None]), w')"
    using lookup_row_miss_low [of idx t hash_order] not_found by blast
  have 4: "rows_by_norm idx = [] \<longrightarrow>
      lookup_row hash_order idx t = None
      \<and> run fs hash_order project_root tr w
          = (Inr ([not_found_message (raw_input_of (movie_title tr) user_text)],
                  [SlotSet ''movie_title'' None]), w')"
    using lookup_row_no_rows [of idx hash_order t] not_found by blast
  from 1 2 3 4 show ?thesis by blast
qed


theorem run_exact_then_fuzzy_witness:
  "run demo_fs demo_order ''/srv/bot''
       \<lparr>movie_title = Some ''Inception'', latest_text = Some (Some ''How long is it?'')\<rparr>
       empty_world
     = (Inr ([''The duration of '' @ [squote] @ ''Inception'' @ [squote] @ '' is 148 min.''],
             [SlotSet ''movie_title'' None]), demo_world)
   \<and> run demo_fs demo_order_rev ''/srv/bot''
       \<lparr>movie_title = Some ''Incepton'', latest_text = Some (Some ''How long is it?'')\<rparr>
       empty_world
     = (Inr ([''The duration of '' @ [squote] @ ''Inception'' @ [squote] @ '' is 148 min.''],
             [SlotSet ''movie_title'' None]), demo_world)
   \<and> run demo_fs demo_order ''/srv/bot''
       \<lparr>movie_title = Some ''Toy Story'', latest_text = None\<rparr> empty_world
     = (Inr ([not_found_message ''Toy Story''], [SlotSet ''movie_title'' None]), demo_world)
   \<and> run (\<lambda>p. Some []) demo_order ''/srv/bot''
       \<lparr>movie_title = Some ''Up'', latest_text = None\<rparr> empty_world
     = (Inr ([not_found_message ''Up''], [SlotSet ''movie_title'' None]),
        \<lparr>dataset_cache = [(demo_path, empty_index)], opened = [demo_path]\<rparr>)
   \<and> run tie_fs demo_order ''/srv/bot''
       \<lparr>movie_title = Some ''abcde'', latest_text = None\<rparr> empty_world
     = (Inr ([describe_row (tie_rows ! 0) []], [SlotSet ''movie_title'' None]), tie_world)
   \<and> run tie_fs demo_order_rev ''/srv/bot''
       \<lparr>movie_title = Some ''abcde'', latest_text = None\<rparr> empty_world
     = (Inr ([describe_row (tie_rows ! 1) []], [SlotSet ''movie_title'' None]), tie_world)"
proof -
  note t = run_exact_then_fuzzy
  have c: "cache_ok empty_world"
    by (simp add: cache_ok_def empty_world_def)
  have bd: "build_dataset_index demo_fs (dataset_path ''/srv/bot'') empty_world
      = (Inr demo_index, demo_world)"
    by (simp add: build_dataset_index_def empty_world_def demo_fs_def demo_index_def
        demo_world_def demo_path_def empty_index_def Let_def)
  have be: "build_dataset_index (\<lambda>p. Some []) (dataset_path ''/srv/bot'') empty_world
      = (Inr empty_index, \<lparr>dataset_cache = [(demo_path, empty_index)], opened = [demo_path]\<rparr>)"
    by (simp add: build_dataset_index_def empty_world_def demo_path_def empty_index_def Let_def)
  have bt: "build_dataset_index tie_fs (dataset_path ''/srv/bot'') empty_world
      = (Inr tie_index, tie_world)"
    by (simp add: build_dataset_index_def empty_world_def tie_fs_def tie_index_def
        tie_world_def demo_path_def empty_index_def Let_def)

  let ?a = "\<lparr>movie_title = Some ''Inception'', latest_text = Some (Some ''How long is it?'')\<rparr>"
  have a: "user_text_of ?a = Inr ''how long is it?''"
      "normalize_title (Some (raw_input_of (movie_title ?a) ''how long is it?'')) = ''inception''"
      "''inception'' \<noteq> []"
      "map_of (rows_by_norm demo_index) ''inception'' = Some (hd demo_rows)"
    by code_simp+
  have da: "describe_row (hd demo_rows) ''how long is it?''
      = ''The duration of '' @ [squote] @ ''Inception'' @ [squote] @ '' is 148 min.''"
    by code_simp
  from t [OF c a(1) a(2) a(3) bd, of "hd demo_rows" demo_order] a(4)
  have "run demo_fs demo_order ''/srv/bot'' ?a empty_world
      = (Inr ([describe_row (hd demo_rows) ''how long is it?''],
              [SlotSet ''movie_title'' None]), demo_world)"
    by blast
  then have 1: "run demo_fs demo_order ''/srv/bot'' ?a empty_world
      = (Inr ([''The duration of '' @ [squote] @ ''Inception'' @ [squote] @ '' is 148 min.''],
              [SlotSet ''movie_title'' None]), demo_world)"
    by (simp only: da)

  let ?b = "\<lparr>movie_title = Some ''Incepton'', latest_text = Some (Some ''How long is it?'')\<rparr>"
  have b: "user_text_of ?b = Inr ''how long is it?''"
      "normalize_title (Some (raw_input_of (movie_title ?b) ''how long is it?'')) = ''incepton''"
      "''incepton'' \<noteq> []"
      "map_of (rows_by_norm demo_index) ''incepton'' = None
        \<and> set (demo_order_rev (titles_set demo_index)) = titles_set demo_index
        \<and> 8 / 10 < best_score demo_index ''incepton''"
    by code_simp+
  have b5: "\<forall>m\<in>set (demo_order_rev (titles_set demo_index)).
      similarity ''incepton'' m = best_score demo_index ''incepton''
        \<longrightarrow> map_of (rows_by_norm demo_index) m = Some (hd demo_rows)"
    by code_simp
  from t [OF c b(1) b(2) b(3) bd, of "hd demo_rows" demo_order_rev] b(4)
  obtain pre m post r' where m: "demo_order_rev (titles_set demo_index) = pre @ m # post"
      "similarity ''incepton'' m = best_score demo_index ''incepton''"
      "map_of (rows_by_norm demo_index) m = Some r'"
      "run demo_fs demo_order_rev ''/srv/bot'' ?b empty_world
        = (Inr ([describe_row r' ''how long is it?''], [SlotSet ''movie_title'' None]), demo_world)"
    by blast
  from m(1) have "m \<in> set (demo_order_rev (titles_set demo_index))" by simp
  with b5 m(2) m(3) have "r' = hd demo_rows" by simp
  with m(4) have 2: "run demo_fs demo_order_rev ''/srv/bot'' ?b empty_world
      = (Inr ([''The duration of '' @ [squote] @ ''Inception'' @ [squote] @ '' is 148 min.''],
              [SlotSet ''movie_title'' None]), demo_world)"
    by (simp only: da)

  let ?n = "\<lparr>movie_title = Some ''Toy Story'', latest_text = None\<rparr>"
  have n: "user_text_of ?n = Inr []"
      "normalize_title (Some (raw_input_of (movie_title ?n) [])) = ''toy story''"
      "''toy story'' \<noteq> []"
      "map_of (rows_by_norm demo_index) ''toy story'' = None
        \<and> set (demo_order (titles_set demo_index)) = titles_set demo_index
        \<and> best_score demo_index ''toy story'' \<le> 8 / 10"
      "raw_input_of (movie_title ?n) [] = ''Toy Story''"
    by code_simp+
  from t [OF c n(1) n(2) n(3) bd, of "[]" demo_order] n(4)
  have "run demo_fs demo_order ''/srv/bot'' ?n empty_world
      = (Inr ([not_found_message (raw_input_of (movie_title ?n) [])],
              [SlotSet ''movie_title'' None]), demo_world)"
    by blast
  then have 3: "run demo_fs demo_order ''/srv/bot'' ?n empty_world
      = (Inr ([not_found_message ''Toy Story''], [SlotSet ''movie_title'' None]), demo_world)"
    by (simp only: n(5))

  let ?u = "\<lparr>movie_title = Some ''Up'', latest_text = None\<rparr>"
  have u: "user_text_of ?u = Inr []"
      "normalize_title (Some (raw_input_of (movie_title ?u) [])) = ''up''"
      "''up'' \<noteq> []"
      "rows_by_norm empty_index = []"
      "raw_input_of (movie_title ?u) [] = ''Up''"
    by code_simp+
  from t [OF c u(1) u(2) u(3) be, of "[]" demo_order] u(4)
  have "run (\<lambda>p. Some []) demo_order ''/srv/bot'' ?u empty_world
      = (Inr ([not_found_message (raw_input_of (movie_title ?u) [])],
              [SlotSet ''movie_title'' None]),
         \<lparr>dataset_cache = [(demo_path, empty_index)], opened = [demo_path]\<rparr>)"
    by blast
  then have 4: "run (\<lambda>p. Some []) demo_order ''/srv/bot'' ?u empty_world
      = (Inr ([not_found_message ''Up''], [SlotSet ''movie_title'' None]),
         \<lparr>dataset_cache = [(demo_path, empty_index)], opened = [demo_path]\<rparr>)"
    by (simp only: u(5))

  let ?x = "\<lparr>movie_title = Some ''abcde'', latest_text = None\<rparr>"
  have x: "user_text_of ?x = Inr []"
      "normalize_title (Some (raw_input_of (movie_title ?x) [])) = ''abcde''"
      "''abcde'' \<noteq> []"
    by code_simp+
  have s: "similarity ''abcde'' ''abcdef'' = 10 / 11" "similarity ''abcde'' ''abcdeg'' = 10 / 11"
      "best_score tie_index ''abcde'' = 10 / 11"
      "map_of (rows_by_norm tie_index) ''abcdef'' = Some (tie_rows ! 0)"
      "map_of (rows_by_norm tie_index) ''abcdeg'' = Some (tie_rows ! 1)"
    by code_simp+
  have x4: "map_of (rows_by_norm tie_index) ''abcde'' = None
        \<and> set (demo_order (titles_set tie_index)) = titles_set tie_index
        \<and> 8 / 10 < best_score tie_index ''abcde''"
    by code_simp
  have o: "demo_order (titles_set tie_index) = [''abcdef'', ''abcdeg'']"
    by code_simp
  from t [OF c x(1) x(2) x(3) bt, of "[]" demo_order] x4
  obtain pre m post r' where m: "demo_order (titles_set tie_index) = pre @ m # post"
      "\<forall>y\<in>set pre. similarity ''abcde'' y < similarity ''abcde'' m"
      "similarity ''abcde'' m = best_score tie_index ''abcde''"
      "map_of (rows_by_norm tie_index) m = Some r'"
      "run tie_fs demo_order ''/srv/bot'' ?x empty_world
        = (Inr ([describe_row r' []], [SlotSet ''movie_title'' None]), tie_world)"
    by blast
  have "pre = []"
  proof (cases pre)
    case Nil
    then show ?thesis .
  next
    case (Cons y ys)
    with m(1) o have "y = ''abcdef''" by simp
    with m(2) Cons have "similarity ''abcde'' ''abcdef'' < similarity ''abcde'' m" by simp
    with m(3) s show ?thesis by simp
  qed
  with m(1) o have "m = ''abcdef''" by simp
  with m(4) s(4) have "r' = tie_rows ! 0" by simp
  with m(5) have 5: "run tie_fs demo_order ''/srv/bot'' ?x empty_world
      = (Inr ([describe_row (tie_rows ! 0) []], [SlotSet ''movie_title'' None]), tie_world)"
    by simp

  have y4: "map_of (rows_by_norm tie_index) ''abcde'' = None
        \<and> set (demo_order_rev (titles_set tie_index)) = titles_set tie_index
        \<and> 8 / 10 < best_score tie_index ''abcde''"
    by code_simp
  have o': "demo_order_rev (titles_set tie_index) = [''abcdeg'', ''abcdef'']"
    by code_simp
  from t [OF c x(1) x(2) x(3) bt, of "[]" demo_order_rev] y4
  obtain pre' m' post' r'' where m': "demo_order_rev (titles_set tie_index) = pre' @ m' # post'"
      "\<forall>y\<in>set pre'. similarity ''abcde'' y < similarity ''abcde'' m'"
      "similarity ''abcde'' m' = best_score tie_index ''abcde''"
      "map_of (rows_by_norm tie_index) m' = Some r''"
      "run tie_fs demo_order_rev ''/srv/bot'' ?x empty_world
        = (Inr ([describe_row r'' []], [SlotSet ''movie_title'' None]), tie_world)"
    by blast
  have "pre' = []"
  proof (cases pre')
    case Nil
    then show ?thesis .
  next
    case (Cons y ys)
    with m'(1) o' have "y = ''abcdeg''" by simp
    with m'(2) Cons have "similarity ''abcde'' ''abcdeg'' < similarity ''abcde'' m'" by simp
    with m'(3) s show ?thesis by simp
  qed
  with m'(1) o' have "m' = ''abcdeg''" by simp
  with m'(4) s(5) have "r'' = tie_rows ! 1" by simp
  with m'(5) have 6: "run tie_fs demo_order_rev ''/srv/bot'' ?x empty_world
      = (Inr ([describe_row (tie_rows ! 1) []], [SlotSet ''movie_title'' None]), tie_world)"
    by simp
  from 1 2 3 4 5 6 show ?thesis by (simp only: simp_thms)
qed

section \<open>Extractor: lead-in phrases\<close>







section \<open>Extractor: quoted titles\<close>

lemma findall_quoted_leftmost:
  assumes "t = pre @ dquote # body @ dquote # post" and "body \<noteq> []" and "dquote \<notin> set body"
    and "\<forall>p b r. t = p @ dquote # b @ dquote # r \<and> b \<noteq> [] \<and> dquote \<notin> set b
           \<longrightarrow> length pre \<le> length p"
  shows "\<exists>qs. findall_quoted t = body # qs"
  using assms
proof (induction pre arbitrary: t)
  case Nil
  have nb: "\<forall>x\<in>set body. x \<noteq> dquote"
    using Nil.prems(3) by blast
  have "takeWhile (\<lambda>x. x \<noteq> dquote) (body @ dquote # post) = body"
    using nb by (simp add: takeWhile_tail)
  moreover have "dropWhile (\<lambda>x. x \<noteq> dquote) (body @ dquote # post) = dquote # post"
    using nb by (simp add: dropWhile_append3)
  ultimately show ?case
    using Nil.prems(1,2) by (simp add: Let_def)
next
  case (Cons c pre)
  let ?t' = "pre @ dquote # body @ dquote # post"
  let ?b = "takeWhile (\<lambda>x. x \<noteq> dquote) ?t'"
  let ?r = "dropWhile (\<lambda>x. x \<noteq> dquote) ?t'"
  have t: "t = c # ?t'" using Cons.prems(1) by simp
  have no: "\<not> (c = dquote \<and> ?b \<noteq> [] \<and> ?r \<noteq> [])"
  proof
    assume a: "c = dquote \<and> ?b \<noteq> [] \<and> ?r \<noteq> []"
    then have "hd ?r = dquote"
      using hd_dropWhile [of "\<lambda>x. x \<noteq> dquote" ?t'] by simp
    then have "?r = dquote # tl ?r" using a by (cases ?r) auto
    then have "?t' = ?b @ dquote # tl ?r"
      by (metis takeWhile_dropWhile_id)
    then have "t = [] @ dquote # ?b @ dquote # tl ?r"
      using t a by simp
    moreover have "dquote \<notin> set ?b"
      by (metis (mono_tags, lifting) set_takeWhileD)
    ultimately have "length (c # pre) \<le> length ([] :: string)"
      using Cons.prems(4) a by blast
    then show False by simp
  qed
  have "\<forall>p b r. ?t' = p @ dquote # b @ dquote # r \<and> b \<noteq> [] \<and> dquote \<notin> set b
      \<longrightarrow> length pre \<le> length p"
  proof (intro allI impI)
    fix p b r
    assume h: "?t' = p @ dquote # b @ dquote # r \<and> b \<noteq> [] \<and> dquote \<notin> set b"
    then have "t = (c # p) @ dquote # b @ dquote # r" using t by simp
    with h Cons.prems(4) have "length (c # pre) \<le> length (c # p)" by blast
    then show "length pre \<le> length p" by simp
  qed
  from Cons.IH [OF refl Cons.prems(2,3) this]
  obtain qs where "findall_quoted ?t' = body # qs" by blast
  then show ?case using no t by (auto simp: Let_def)
qed

lemma no_quote_leftmost:
  assumes "dquote \<notin> set pre" and "pre @ x = p @ dquote # y"
  shows "length pre \<le> length p"
proof (rule ccontr)
  assume "\<not> length pre \<le> length p"
  then have "length p < length pre" by simp
  then have "pre ! length p = (p @ dquote # y) ! length p"
    using assms(2) by (metis nth_append)
  then have "pre ! length p = dquote" by simp
  then show False using assms(1) \<open>length p < length pre\<close> by (metis nth_mem)
qed

text \<open>
  C7, as the specification states it, fails: the pattern asks for at least one character
  between the quotes, so an empty pair of double quotes is no quoted title. An utterance
  whose only quotes are an empty pair goes through phrase stripping and comes back
  with its quotes; and when an empty pair comes first, what the code takes is the text
  between its closing quote and the next double quote.
\<close>

theorem empty_quotes_are_no_title:
  "spec_first_quoted (strip (lower (''tell '' @ [dquote, dquote] @ '' up''))) = Some []
   \<and> extract_title_from_text (''tell '' @ [dquote, dquote] @ '' up'')
       = ''tell '' @ [dquote, dquote] @ '' up''
   \<and> extract_title_from_text (''tell '' @ [dquote, dquote] @ '' up'') \<noteq> strip []
   \<and> spec_first_quoted
        (strip (lower (''play '' @ [dquote, dquote] @ '' or '' @ [dquote] @ ''Heat'' @ [dquote])))
       = Some []
   \<and> extract_title_from_text
        (''play '' @ [dquote, dquote] @ '' or '' @ [dquote] @ ''Heat'' @ [dquote]) = ''or''"
  by code_simp

text \<open>
  C7, amended. For every utterance whose lower-cased, trimmed form holds a double quote,
  one or more characters other than the double quote, and a double quote,
  \<open>extract_title_from_text\<close> returns what lies between the quotes of the leftmost such
  occurrence, trimmed of surrounding whitespace, whatever the rest of the utterance holds,
  lead-in phrases included: \<open>Tell me about "Die Hard"\<close> gives \<open>die hard\<close>.
\<close>

theorem extract_title_leftmost_quoted:
  "strip (lower text) = pre @ dquote # body @ dquote # post
   \<and> body \<noteq> [] \<and> dquote \<notin> set body
   \<and> (\<forall>p b r. strip (lower text) = p @ dquote # b @ dquote # r \<and> b \<noteq> [] \<and> dquote \<notin> set b
          \<longrightarrow> length pre \<le> length p)
   \<longrightarrow> extract_title_from_text text = strip body"
proof
  assume h: "strip (lower text) = pre @ dquote # body @ dquote # post
    \<and> body \<noteq> [] \<and> dquote \<notin> set body
    \<and> (\<forall>p b r. strip (lower text) = p @ dquote # b @ dquote # r \<and> b \<noteq> [] \<and> dquote \<notin> set b
          \<longrightarrow> length pre \<le> length p)"
  then have "\<exists>qs. findall_quoted (strip (lower text)) = body # qs"
    by (intro findall_quoted_leftmost [of _ pre body post]) blast+
  then show "extract_title_from_text text = strip body"
    by (auto simp: extract_title_from_text_def Let_def)
qed

theorem extract_title_leftmost_quoted_witness:
  "extract_title_from_text (''Tell me about '' @ [dquote] @ '' Die Hard'' @ [dquote] @ '' please'')
     = ''die hard''"
proof -
  let ?text = "''Tell me about '' @ [dquote] @ '' Die Hard'' @ [dquote] @ '' please''"
  let ?pre = "''tell me about ''"
  have e: "strip (lower ?text) = ?pre @ dquote # '' die hard'' @ dquote # '' please''"
    by code_simp
  have b: "'' die hard'' \<noteq> [] \<and> dquote \<notin> set '' die hard''"
    by code_simp
  have np: "dquote \<notin> set ?pre"
    by code_simp
  have l: "\<forall>p b r. strip (lower ?text) = p @ dquote # b @ dquote # r \<and> b \<noteq> [] \<and> dquote \<notin> set b
      \<longrightarrow> length ?pre \<le> length p"
    using no_quote_leftmost [OF np] unfolding e by blast
  have s: "strip '' die hard'' = ''die hard''"
    by code_simp
  from e b l extract_title_leftmost_quoted [of ?text ?pre "'' die hard''" "'' please''"]
  have "extract_title_from_text ?text = strip '' die hard''"
    by blast
  then show ?thesis by (simp only: s)
qed

end
